theory Spec2Isabelle
  imports Complex_Main
begin

section \<open>The dynamic trigger collection (EventTriggerCollection)\<close>

text \<open>
  The class keeps two arrays of owning pointers (timers and witnesses), each with a stack
  of free slot numbers. A \<^verbatim>\<open>std::unique_ptr<T>\<close> is modelled as \<open>'a option\<close>
  (\<open>None\<close> is the null pointer), an \<^verbatim>\<open>Array_<unsigned>\<close> used as a stack as a
  list whose last element is the top, and an \<^verbatim>\<open>unsigned\<close> slot number as a \<open>nat\<close>.

  The two checks of the class are \<^verbatim>\<open>assert\<close>s of \<^verbatim>\<open><cassert>\<close>: they are
  compiled in or out by the build (\<^verbatim>\<open>NDEBUG\<close>). Whether they are compiled in is the
  parameter \<open>asserts\<close> of the functions below; a failed assertion is the error
  \<open>AssertFailed\<close>, and without assertions the code goes on. An access past the end of
  an array has no defined result in either build; it is the error \<open>OutOfBounds\<close>.
\<close>

datatype error =
    AssertFailed
  | OutOfBounds
  | APIArgcheckFailed
  | IndexOutOfRange
  | ErrorCheck

text \<open>
  \<^verbatim>\<open>findFreeSlot\<close>: the top of the free stack when there is one (popped), otherwise a
  new empty slot is added at the end and its number returned.
\<close>

definition findFreeSlot :: "'a option list \<Rightarrow> nat list \<Rightarrow> nat \<times> 'a option list \<times> nat list" where
  "findFreeSlot things freeSlots =
     (if freeSlots \<noteq> [] then (last freeSlots, things, butlast freeSlots)
      else (length (things @ [None]) - 1, things @ [None], freeSlots))"

text \<open>
  \<^verbatim>\<open>adoptThing\<close>: the pointer \<open>thing\<close> may be null (nothing in the source checks it).
  The slot found is asserted to be empty; it is then reset to \<open>thing\<close>, which without
  the assertion replaces whatever the slot held.
\<close>

definition adoptThing ::
  "bool \<Rightarrow> 'a option \<Rightarrow> 'a option list \<Rightarrow> nat list
     \<Rightarrow> error + (nat \<times> 'a option list \<times> nat list)" where
  "adoptThing asserts thing things freeSlots =
     (case findFreeSlot things freeSlots of
        (thingIndex, things', freeSlots') \<Rightarrow>
          if \<not> thingIndex < length things' then Inl OutOfBounds
          else if asserts \<and> things' ! thingIndex \<noteq> None then Inl AssertFailed
          else Inr (thingIndex, things'[thingIndex := thing], freeSlots'))"

text \<open>
  \<^verbatim>\<open>removeThing\<close>: the slot is asserted to hold an object. The last slot is popped
  off the array; any other slot is reset to null and its number pushed on the free stack,
  which without the assertion also happens to a slot that is empty already.
\<close>

definition removeThing ::
  "bool \<Rightarrow> nat \<Rightarrow> 'a option list \<Rightarrow> nat list \<Rightarrow> error + ('a option list \<times> nat list)" where
  "removeThing asserts thingIndex things freeSlots =
     (if \<not> thingIndex < length things then Inl OutOfBounds
      else if asserts \<and> things ! thingIndex = None then Inl AssertFailed
      else if thingIndex = length things - 1 then Inr (butlast things, freeSlots)
      else Inr (things[thingIndex := None], freeSlots @ [thingIndex]))"

record ('t, 'w) EventTriggerCollection =
  m_timers :: "'t option list"
  m_freeTimers :: "nat list"
  m_witnesses :: "'w option list"
  m_freeWitnesses :: "nat list"

definition emptyCollection :: "('t, 'w) EventTriggerCollection" where
  "emptyCollection = \<lparr>m_timers = [], m_freeTimers = [], m_witnesses = [], m_freeWitnesses = []\<rparr>"

definition adoptTimer ::
  "bool \<Rightarrow> 't option \<Rightarrow> ('t, 'w) EventTriggerCollection
     \<Rightarrow> error + (nat \<times> ('t, 'w) EventTriggerCollection)" where
  "adoptTimer asserts timer c =
     (case adoptThing asserts timer (m_timers c) (m_freeTimers c) of
        Inl e \<Rightarrow> Inl e
      | Inr (ix, ts, fs) \<Rightarrow> Inr (ix, c\<lparr>m_timers := ts, m_freeTimers := fs\<rparr>))"

definition removeTimer ::
  "bool \<Rightarrow> nat \<Rightarrow> ('t, 'w) EventTriggerCollection \<Rightarrow> error + ('t, 'w) EventTriggerCollection" where
  "removeTimer asserts timerIndex c =
     (case removeThing asserts timerIndex (m_timers c) (m_freeTimers c) of
        Inl e \<Rightarrow> Inl e
      | Inr (ts, fs) \<Rightarrow> Inr (c\<lparr>m_timers := ts, m_freeTimers := fs\<rparr>))"

definition adoptWitness ::
  "bool \<Rightarrow> 'w option \<Rightarrow> ('t, 'w) EventTriggerCollection
     \<Rightarrow> error + (nat \<times> ('t, 'w) EventTriggerCollection)" where
  "adoptWitness asserts witness c =
     (case adoptThing asserts witness (m_witnesses c) (m_freeWitnesses c) of
        Inl e \<Rightarrow> Inl e
      | Inr (ix, ws, fs) \<Rightarrow> Inr (ix, c\<lparr>m_witnesses := ws, m_freeWitnesses := fs\<rparr>))"

definition removeWitness ::
  "bool \<Rightarrow> nat \<Rightarrow> ('t, 'w) EventTriggerCollection \<Rightarrow> error + ('t, 'w) EventTriggerCollection" where
  "removeWitness asserts witnessIndex c =
     (case removeThing asserts witnessIndex (m_witnesses c) (m_freeWitnesses c) of
        Inl e \<Rightarrow> Inl e
      | Inr (ws, fs) \<Rightarrow> Inr (c\<lparr>m_witnesses := ws, m_freeWitnesses := fs\<rparr>))"

text \<open>
  A client's sequence of calls on one collection. Each adoption returns the slot number it
  used; the run collects these numbers in call order. A call that ends in an error ends
  the run with that error.
\<close>

datatype ('t, 'w) collOp =
    AdoptTimer "'t option"
  | RemoveTimer nat
  | AdoptWitness "'w option"
  | RemoveWitness nat

fun applyOp ::
  "bool \<Rightarrow> ('t, 'w) collOp \<Rightarrow> nat list \<times> ('t, 'w) EventTriggerCollection
     \<Rightarrow> error + (nat list \<times> ('t, 'w) EventTriggerCollection)" where
  "applyOp asserts (AdoptTimer timer) (ixs, c) =
     (case adoptTimer asserts timer c of Inl e \<Rightarrow> Inl e | Inr (ix, c') \<Rightarrow> Inr (ixs @ [ix], c'))"
| "applyOp asserts (RemoveTimer ix) (ixs, c) =
     (case removeTimer asserts ix c of Inl e \<Rightarrow> Inl e | Inr c' \<Rightarrow> Inr (ixs, c'))"
| "applyOp asserts (AdoptWitness witness) (ixs, c) =
     (case adoptWitness asserts witness c of Inl e \<Rightarrow> Inl e | Inr (ix, c') \<Rightarrow> Inr (ixs @ [ix], c'))"
| "applyOp asserts (RemoveWitness ix) (ixs, c) =
     (case removeWitness asserts ix c of Inl e \<Rightarrow> Inl e | Inr c' \<Rightarrow> Inr (ixs, c'))"

fun applyOps ::
  "bool \<Rightarrow> ('t, 'w) collOp list \<Rightarrow> nat list \<times> ('t, 'w) EventTriggerCollection
     \<Rightarrow> error + (nat list \<times> ('t, 'w) EventTriggerCollection)" where
  "applyOps asserts [] s = Inr s"
| "applyOps asserts (x # xs) s =
     (case applyOp asserts x s of Inl e \<Rightarrow> Inl e | Inr s' \<Rightarrow> applyOps asserts xs s')"

definition runOps ::
  "bool \<Rightarrow> ('t, 'w) collOp list \<Rightarrow> error + (nat list \<times> ('t, 'w) EventTriggerCollection)" where
  "runOps asserts xs = applyOps asserts xs ([], emptyCollection)"

text \<open>
  The invariant of one array and its free stack: the free stack has no repetition and
  holds slot numbers of the array only, and a slot is empty exactly when its number is on
  the free stack.
\<close>

definition slotsInv :: "'a option list \<Rightarrow> nat list \<Rightarrow> bool" where
  "slotsInv things freeSlots =
     (distinct freeSlots \<and>
      list_all (\<lambda>i. i < length things) freeSlots \<and>
      list_all (\<lambda>i. (things ! i = None) = (i \<in> set freeSlots)) [0..<length things])"

definition collectionInv :: "('t, 'w) EventTriggerCollection \<Rightarrow> bool" where
  "collectionInv c =
     (slotsInv (m_timers c) (m_freeTimers c) \<and> slotsInv (m_witnesses c) (m_freeWitnesses c))"

text \<open>
  What a caller owes each call: the object adopted is not null, and the slot removed is a
  slot of the array that holds an object. \<open>callsAllowed\<close> says that every call of a
  sequence is made with what it is owed, in the collection as the calls before it left it
  (a call that ends in an error leaves the collection as it was).
\<close>

definition callAllowed :: "('t, 'w) collOp \<Rightarrow> ('t, 'w) EventTriggerCollection \<Rightarrow> bool" where
  "callAllowed x c =
     (case x of
        AdoptTimer timer \<Rightarrow> timer \<noteq> None
      | AdoptWitness witness \<Rightarrow> witness \<noteq> None
      | RemoveTimer ix \<Rightarrow> ix < length (m_timers c) \<and> m_timers c ! ix \<noteq> None
      | RemoveWitness ix \<Rightarrow> ix < length (m_witnesses c) \<and> m_witnesses c ! ix \<noteq> None)"

definition afterCall ::
  "bool \<Rightarrow> ('t, 'w) collOp \<Rightarrow> nat list \<times> ('t, 'w) EventTriggerCollection
     \<Rightarrow> nat list \<times> ('t, 'w) EventTriggerCollection" where
  "afterCall asserts x s = (case applyOp asserts x s of Inl e \<Rightarrow> s | Inr s' \<Rightarrow> s')"

fun callsAllowed ::
  "bool \<Rightarrow> ('t, 'w) collOp list \<Rightarrow> nat list \<times> ('t, 'w) EventTriggerCollection \<Rightarrow> bool" where
  "callsAllowed asserts [] s = True"
| "callsAllowed asserts (x # xs) s =
     (callAllowed x (snd s) \<and> callsAllowed asserts xs (afterCall asserts x s))"

section \<open>Identifiers, events, triggers and the registries\<close>

text \<open>
  \<^verbatim>\<open>EventId\<close> and \<^verbatim>\<open>EventTriggerId\<close> are unique index types over \<^verbatim>\<open>int\<close>; their
  header is not among the sources. An array indexed by such a type cannot grow past the
  range of its index type, so the conversions between array sizes and ids in the source
  do not overflow, and ids and sizes are unbounded integers here.
\<close>

type_synonym EventId = int
type_synonym EventTriggerId = int

text \<open>
  Modelled from the spec: \<^verbatim>\<open>isValid()\<close> of an index type (the header is missing). The
  spec says ids are dense non-negative integers and the invalid id is a distinguished
  sentinel; an id is valid when it is not negative.
\<close>

definition isValid :: "int \<Rightarrow> bool" where
  "isValid ix = (0 \<le> ix)"

text \<open>
  Modelled from the spec: \<^verbatim>\<open>SimTK::isIndexInRange(ix, ub)\<close> (the header is missing):
  \<open>0 \<le> ix < ub\<close>.
\<close>

definition isIndexInRange :: "int \<Rightarrow> int \<Rightarrow> bool" where
  "isIndexInRange ix ub = (0 \<le> ix \<and> ix < ub)"

text \<open>
  The accumulator that change actions write to (class \<^verbatim>\<open>EventChangeResult\<close>, header
  missing). Modelled from the spec: it collects the exit status each action reports and
  holds the lowest modified stage; \<^verbatim>\<open>clear()\<close> empties it. A stage is its number,
  and \<open>None\<close> stands for \<^verbatim>\<open>Stage::Infinity\<close> (no stage).
\<close>

datatype ExitStatus = Succeeded | ShouldTerminate | Failed

type_synonym Stage = "nat option"

record EventChangeResult =
  m_exitStatus :: "ExitStatus list"
  m_lowestModifiedStage :: Stage

definition clearResult :: "EventChangeResult \<Rightarrow> EventChangeResult" where
  "clearResult r = \<lparr>m_exitStatus = [], m_lowestModifiedStage = None\<rparr>"

definition setLowestModifiedStage :: "Stage \<Rightarrow> EventChangeResult \<Rightarrow> EventChangeResult" where
  "setLowestModifiedStage g r = r\<lparr>m_lowestModifiedStage := g\<rparr>"

text \<open>
  An event action is a report action or a change action. A change action's
  \<^verbatim>\<open>changeVirtual(study, event, triggers, result)\<close> updates the study and the result;
  \<open>'st\<close> is the study with its state, and triggers are referred to by address.
\<close>

datatype 'st EventAction =
    ReportAction
  | ChangeAction "'st \<Rightarrow> nat list \<Rightarrow> EventChangeResult \<Rightarrow> 'st \<times> EventChangeResult"

record 'st Event =
  m_eventId :: EventId
  m_actions :: "'st EventAction list"
  m_eventOccurrences :: nat

record EventTrigger =
  m_triggerId :: EventTriggerId
  m_eventIds :: "EventId list"
  m_triggerOccurrences :: nat

text \<open>
  IEEE doubles as far as the scheduler uses them: it only compares them. \<open>NaN\<close>
  compares false with everything; a finite double is the real number it stands for (so
  the two zeros are one value).
\<close>

datatype double = NaN | NegInfinity | Finite real | dInfinity

fun dless :: "double \<Rightarrow> double \<Rightarrow> bool" where
  "dless NaN y = False"
| "dless x NaN = False"
| "dless x NegInfinity = False"
| "dless NegInfinity y = True"
| "dless dInfinity y = False"
| "dless (Finite a) (Finite b) = (a < b)"
| "dless (Finite a) dInfinity = True"

definition dgreater :: "double \<Rightarrow> double \<Rightarrow> bool" where
  "dgreater x y = dless y x"

text \<open>
  A timer is a trigger with \<^verbatim>\<open>calcTimeOfNextTrigger(system, state, timeOfLastTrigger)\<close>.
  The system and the state do not change during a call of the scheduler, so the timer's
  function is taken at them: it maps the time of the last trigger to the next time.
\<close>

record EventTimer = EventTrigger +
  m_timerIndex :: int
  calcTimeOfNextTrigger :: "double \<Rightarrow> double"

record EventWitness = EventTrigger +
  m_witnessIndex :: int

text \<open>
  \<^verbatim>\<open>SystemGlobalSubsystem::Guts\<close>: the two registries (arrays of owning pointers,
  \<open>None\<close> is null) and the topology cache's timer and witness arrays \<^verbatim>\<open>m_timers\<close>
  and \<^verbatim>\<open>m_witnesses\<close> (here with the suffix \<open>_cache\<close>: the collection's fields have
  the same names).
\<close>

record 'st Guts =
  m_events :: "'st Event option list"
  m_triggers :: "EventTrigger option list"
  m_timers_cache :: "EventTimer list"
  m_witnesses_cache :: "EventWitness list"

definition newGuts :: "'st Guts" where
  "newGuts = \<lparr>m_events = [], m_triggers = [], m_timers_cache = [], m_witnesses_cache = []\<rparr>"

text \<open>
  \<^verbatim>\<open>SimTK_APIARGCHECK_ALWAYS\<close>, \<^verbatim>\<open>SimTK_INDEXCHECK_ALWAYS\<close> and
  \<^verbatim>\<open>SimTK_ERRCHK1_ALWAYS\<close> throw in every build. \<^verbatim>\<open>SimTK_APIARGCHECK\<close> (no
  \<^verbatim>\<open>_ALWAYS\<close>) is compiled in or out by the build; the macro's header is missing, so
  whether it is compiled in is the parameter \<open>apiChecks\<close> of the functions that use it.
\<close>

definition adoptEvent :: "'st Event option \<Rightarrow> 'st Guts \<Rightarrow> error + (EventId \<times> 'st Guts)" where
  "adoptEvent eventp g =
     (case eventp of
        None \<Rightarrow> Inl APIArgcheckFailed
      | Some e \<Rightarrow>
          let e' = e\<lparr>m_eventId := int (length (m_events g))\<rparr>
          in Inr (m_eventId e', g\<lparr>m_events := m_events g @ [Some e']\<rparr>))"

definition adoptEventTrigger ::
  "EventTrigger option \<Rightarrow> 'st Guts \<Rightarrow> error + (EventTriggerId \<times> 'st Guts)" where
  "adoptEventTrigger triggerp g =
     (case triggerp of
        None \<Rightarrow> Inl APIArgcheckFailed
      | Some t \<Rightarrow>
          let t' = t\<lparr>m_triggerId := int (length (m_triggers g))\<rparr>
          in Inr (m_triggerId t', g\<lparr>m_triggers := m_triggers g @ [Some t']\<rparr>))"

definition getNumEvents :: "'st Guts \<Rightarrow> int" where
  "getNumEvents g = int (length (m_events g))"

definition getEvent :: "bool \<Rightarrow> 'st Guts \<Rightarrow> EventId \<Rightarrow> error + 'st Event" where
  "getEvent apiChecks g ident =
     (if apiChecks \<and> \<not> isValid ident then Inl APIArgcheckFailed
      else if \<not> isIndexInRange ident (getNumEvents g) then Inl IndexOutOfRange
      else case m_events g ! nat ident of
             None \<Rightarrow> Inl ErrorCheck
           | Some e \<Rightarrow> Inr e)"

definition updEvent :: "bool \<Rightarrow> 'st Guts \<Rightarrow> EventId \<Rightarrow> error + 'st Event" where
  "updEvent apiChecks g ident =
     (if apiChecks \<and> \<not> isValid ident then Inl APIArgcheckFailed
      else if \<not> isIndexInRange ident (getNumEvents g) then Inl IndexOutOfRange
      else case m_events g ! nat ident of
             None \<Rightarrow> Inl ErrorCheck
           | Some e \<Rightarrow> Inr e)"

definition hasEvent :: "bool \<Rightarrow> 'st Guts \<Rightarrow> EventId \<Rightarrow> error + bool" where
  "hasEvent apiChecks g ident =
     (if apiChecks \<and> \<not> isValid ident then Inl APIArgcheckFailed
      else Inr (isIndexInRange ident (getNumEvents g) \<and> m_events g ! nat ident \<noteq> None))"

definition getNumEventTriggers :: "'st Guts \<Rightarrow> int" where
  "getNumEventTriggers g = int (length (m_triggers g))"

definition getEventTrigger :: "bool \<Rightarrow> 'st Guts \<Rightarrow> EventTriggerId \<Rightarrow> error + EventTrigger" where
  "getEventTrigger apiChecks g ident =
     (if apiChecks \<and> \<not> isValid ident then Inl APIArgcheckFailed
      else if \<not> isIndexInRange ident (getNumEventTriggers g) then Inl IndexOutOfRange
      else case m_triggers g ! nat ident of
             None \<Rightarrow> Inl ErrorCheck
           | Some t \<Rightarrow> Inr t)"

definition updEventTrigger :: "bool \<Rightarrow> 'st Guts \<Rightarrow> EventTriggerId \<Rightarrow> error + EventTrigger" where
  "updEventTrigger apiChecks g ident =
     (if apiChecks \<and> \<not> isValid ident then Inl APIArgcheckFailed
      else if \<not> isIndexInRange ident (getNumEventTriggers g) then Inl IndexOutOfRange
      else case m_triggers g ! nat ident of
             None \<Rightarrow> Inl ErrorCheck
           | Some t \<Rightarrow> Inr t)"

definition hasEventTrigger :: "bool \<Rightarrow> 'st Guts \<Rightarrow> EventTriggerId \<Rightarrow> error + bool" where
  "hasEventTrigger apiChecks g ident =
     (if apiChecks \<and> \<not> isValid ident then Inl APIArgcheckFailed
      else Inr (isIndexInRange ident (getNumEventTriggers g) \<and> m_triggers g ! nat ident \<noteq> None))"

text \<open>
  A client's sequence of adoptions. An adoption that throws (a null pointer) leaves the
  registries as they were and the sequence goes on; an adoption that succeeds returns the
  id it assigned, and the run collects the event ids and the trigger ids in call order.
\<close>

datatype 'st adoption = AdoptEvent "'st Event option" | AdoptEventTrigger "EventTrigger option"

fun adoptOne ::
  "'st adoption \<Rightarrow> EventId list \<times> EventTriggerId list \<times> 'st Guts
     \<Rightarrow> EventId list \<times> EventTriggerId list \<times> 'st Guts" where
  "adoptOne (AdoptEvent eventp) (eids, tids, g) =
     (case adoptEvent eventp g of
        Inl e \<Rightarrow> (eids, tids, g)
      | Inr (ident, g') \<Rightarrow> (eids @ [ident], tids, g'))"
| "adoptOne (AdoptEventTrigger triggerp) (eids, tids, g) =
     (case adoptEventTrigger triggerp g of
        Inl e \<Rightarrow> (eids, tids, g)
      | Inr (ident, g') \<Rightarrow> (eids, tids @ [ident], g'))"

definition adoptAll :: "'st adoption list \<Rightarrow> EventId list \<times> EventTriggerId list \<times> 'st Guts" where
  "adoptAll xs = foldl (\<lambda>s x. adoptOne x s) ([], [], newGuts) xs"

text \<open>
  The invariant of the registries along a run of adoptions: the ids handed out are
  \<open>0, 1, 2, ...\<close> in call order, and slot \<open>i\<close> of each registry holds an object whose
  own id is \<open>i\<close>.
\<close>

definition regInv :: "EventId list \<times> EventTriggerId list \<times> 'st Guts \<Rightarrow> bool" where
  "regInv s = (case s of (eids, tids, g) \<Rightarrow>
     eids = map int [0..<length (m_events g)] \<and>
     tids = map int [0..<length (m_triggers g)] \<and>
     (\<forall>i<length (m_events g). \<exists>e. m_events g ! i = Some e \<and> m_eventId e = int i) \<and>
     (\<forall>i<length (m_triggers g). \<exists>t. m_triggers g ! i = Some t \<and> m_triggerId t = int i))"

section \<open>The next-event scheduler\<close>

text \<open>
  Modelled from the spec: \<^verbatim>\<open>Event::hasChangeAction()\<close> (the header is missing): the
  event has at least one Change action.
\<close>

definition isChangeAction :: "'st EventAction \<Rightarrow> bool" where
  "isChangeAction a = (case a of ReportAction \<Rightarrow> False | ChangeAction f \<Rightarrow> True)"

definition hasChangeAction :: "'st Event \<Rightarrow> bool" where
  "hasChangeAction e = list_ex isChangeAction (m_actions e)"

text \<open>
  The inner loop of \<^verbatim>\<open>findNextScheduledEventTimes\<close> over the event ids of one timer:
  it looks each event up with \<^verbatim>\<open>system.getEvent(eid)\<close> (which throws for an id that
  is not in the registry) and stops at the first event that has a change action. The
  result is the final value of \<^verbatim>\<open>hasChangeAction\<close>.
\<close>

fun timerHasChangeAction :: "bool \<Rightarrow> 'st Guts \<Rightarrow> EventId list \<Rightarrow> error + bool" where
  "timerHasChangeAction apiChecks g [] = Inr False"
| "timerHasChangeAction apiChecks g (eid # eids) =
     (case getEvent apiChecks g eid of
        Inl err \<Rightarrow> Inl err
      | Inr e \<Rightarrow>
          if hasChangeAction e then Inr True
          else timerHasChangeAction apiChecks g eids)"

text \<open>
  The loop over the timers. Its state is the four outputs: \<open>(timeOfNextReport,
  reportTimers, timeOfNextChange, changeTimers)\<close>. A timer whose time is greater than
  the best so far is skipped; one whose time is less replaces the list; otherwise the
  timer is appended.
\<close>

type_synonym schedule = "double \<times> EventTimer list \<times> double \<times> EventTimer list"

fun scheduleTimers ::
  "bool \<Rightarrow> 'st Guts \<Rightarrow> double \<Rightarrow> double \<Rightarrow> EventTimer list \<Rightarrow> schedule \<Rightarrow> error + schedule" where
  "scheduleTimers apiChecks g timeOfLastReport timeOfLastChange [] s = Inr s"
| "scheduleTimers apiChecks g timeOfLastReport timeOfLastChange (timerp # rest)
      (timeOfNextReport, reportTimers, timeOfNextChange, changeTimers) =
     (case timerHasChangeAction apiChecks g (m_eventIds timerp) of
        Inl err \<Rightarrow> Inl err
      | Inr True \<Rightarrow>
          (let t = calcTimeOfNextTrigger timerp timeOfLastChange in
           if dgreater t timeOfNextChange then
             scheduleTimers apiChecks g timeOfLastReport timeOfLastChange rest
               (timeOfNextReport, reportTimers, timeOfNextChange, changeTimers)
           else if dless t timeOfNextChange then
             scheduleTimers apiChecks g timeOfLastReport timeOfLastChange rest
               (timeOfNextReport, reportTimers, t, [] @ [timerp])
           else
             scheduleTimers apiChecks g timeOfLastReport timeOfLastChange rest
               (timeOfNextReport, reportTimers, timeOfNextChange, changeTimers @ [timerp]))
      | Inr False \<Rightarrow>
          (let t = calcTimeOfNextTrigger timerp timeOfLastReport in
           if dgreater t timeOfNextReport then
             scheduleTimers apiChecks g timeOfLastReport timeOfLastChange rest
               (timeOfNextReport, reportTimers, timeOfNextChange, changeTimers)
           else if dless t timeOfNextReport then
             scheduleTimers apiChecks g timeOfLastReport timeOfLastChange rest
               (t, [] @ [timerp], timeOfNextChange, changeTimers)
           else
             scheduleTimers apiChecks g timeOfLastReport timeOfLastChange rest
               (timeOfNextReport, reportTimers @ [timerp], timeOfNextChange, changeTimers)))"

definition findNextScheduledEventTimes ::
  "bool \<Rightarrow> 'st Guts \<Rightarrow> double \<Rightarrow> double \<Rightarrow> error + schedule" where
  "findNextScheduledEventTimes apiChecks g timeOfLastReport timeOfLastChange =
     scheduleTimers apiChecks g timeOfLastReport timeOfLastChange (m_timers_cache g)
       (dInfinity, [], dInfinity, [])"

text \<open>
  What the claims say about the scheduler, in the claims' words. A timer is a
  change-timer when one of the events it causes is in the registry and has a change
  action; its next time is computed from the time of the last change for a change-timer
  and from the time of the last report otherwise.
\<close>

definition causesChange :: "bool \<Rightarrow> 'st Guts \<Rightarrow> EventTimer \<Rightarrow> bool" where
  "causesChange apiChecks g timerp =
     list_ex (\<lambda>eid. case getEvent apiChecks g eid of Inl err \<Rightarrow> False | Inr e \<Rightarrow> hasChangeAction e)
       (m_eventIds timerp)"

definition nextTime :: "bool \<Rightarrow> 'st Guts \<Rightarrow> double \<Rightarrow> double \<Rightarrow> EventTimer \<Rightarrow> double" where
  "nextTime apiChecks g timeOfLastReport timeOfLastChange timerp =
     calcTimeOfNextTrigger timerp
       (if causesChange apiChecks g timerp then timeOfLastChange else timeOfLastReport)"

text \<open>
  \<open>isEarliest P f ts t\<close>: \<open>t\<close> is the minimum of the times \<open>f\<close> of the timers of
  \<open>ts\<close> that satisfy \<open>P\<close>, and \<open>+\<infinity>\<close> when there is none: no such timer has a
  time less than \<open>t\<close>, and \<open>t\<close> is \<open>+\<infinity>\<close> or the time of one of them.
\<close>

definition isEarliest :: "(EventTimer \<Rightarrow> bool) \<Rightarrow> (EventTimer \<Rightarrow> double) \<Rightarrow> EventTimer list \<Rightarrow> double \<Rightarrow> bool" where
  "isEarliest P f ts t =
     (list_all (\<lambda>x. \<not> dless (f x) t) (filter P ts) \<and>
      (t = dInfinity \<or> list_ex (\<lambda>x. f x = t) (filter P ts)))"

text \<open>
  For the proofs: one category's update, as both branches of the loop do it, and the
  invariants of one category (its best time and its list) after the timers \<open>ps\<close>. The
  first invariant is for runs in which no timer returns \<open>NaN\<close>; the second holds in
  every run.
\<close>

definition pick :: "EventTimer \<Rightarrow> double \<Rightarrow> double \<times> EventTimer list \<Rightarrow> double \<times> EventTimer list" where
  "pick timerp t s = (case s of (best, lst) \<Rightarrow>
     if dgreater t best then (best, lst)
     else if dless t best then (t, [timerp])
     else (best, lst @ [timerp]))"

definition catInv :: "(EventTimer \<Rightarrow> bool) \<Rightarrow> (EventTimer \<Rightarrow> double) \<Rightarrow> EventTimer list \<Rightarrow> double \<times> EventTimer list \<Rightarrow> bool" where
  "catInv P f ps s = (case s of (best, lst) \<Rightarrow>
     best \<noteq> NaN \<and> lst = filter (\<lambda>x. P x \<and> f x = best) ps \<and> isEarliest P f ps best)"

definition catInvW :: "(EventTimer \<Rightarrow> bool) \<Rightarrow> (EventTimer \<Rightarrow> double) \<Rightarrow> EventTimer list \<Rightarrow> double \<times> EventTimer list \<Rightarrow> bool" where
  "catInvW P f ps s = (case s of (best, lst) \<Rightarrow>
     best \<noteq> NaN \<and>
     (\<forall>z\<in>set lst. P z \<and> (f z = best \<or> f z = NaN)) \<and>
     (\<forall>y\<in>set ps. P y \<longrightarrow> \<not> dless (f y) best) \<and>
     ((\<forall>y\<in>set ps. P y \<longrightarrow> \<not> dless (f y) dInfinity) \<longrightarrow>
        best = dInfinity \<and> (\<forall>y\<in>set ps. P y \<and> f y = dInfinity \<longrightarrow> y \<in> set lst)))"

section \<open>The occurrence resolver\<close>

text \<open>
  \<^verbatim>\<open>noteEventOccurrence\<close> gets pointers to trigger objects and bumps their counters.
  A trigger pointer is an address (a \<open>nat\<close>) and the trigger objects live in a store from
  addresses to triggers. An entry of \<^verbatim>\<open>EventsAndCauses\<close> pairs a pointer to an event of
  the registry with the list of trigger pointers that caused it; the event pointer is
  modelled by the event's slot number in the registry, which is the \<^verbatim>\<open>EventId\<close> it was
  looked up with.
\<close>

type_synonym triggerStore = "nat \<Rightarrow> EventTrigger"
type_synonym EventsAndCauses = "(EventId \<times> nat list) list"

definition noteTriggerOccurrence :: "nat \<Rightarrow> triggerStore \<Rightarrow> triggerStore" where
  "noteTriggerOccurrence trigger store =
     store(trigger := (store trigger)\<lparr>m_triggerOccurrences := m_triggerOccurrences (store trigger) + 1\<rparr>)"

definition noteEventOccurred :: "EventId \<Rightarrow> 'st Guts \<Rightarrow> 'st Guts" where
  "noteEventOccurred eid g =
     g\<lparr>m_events := (m_events g)[nat eid :=
          map_option (\<lambda>e. e\<lparr>m_eventOccurrences := m_eventOccurrences e + 1\<rparr>) (m_events g ! nat eid)]\<rparr>"

text \<open>
  \<^verbatim>\<open>std::find\<close> and \<^verbatim>\<open>std::find_if\<close>: the position of the first element that
  satisfies the predicate, and the length of the list (the end iterator) when there is
  none.
\<close>

fun find_if :: "('a \<Rightarrow> bool) \<Rightarrow> 'a list \<Rightarrow> nat" where
  "find_if P [] = 0"
| "find_if P (x # xs) = (if P x then 0 else Suc (find_if P xs))"

text \<open>The body of the inner loop, for one event id of one trigger.\<close>

definition noteEvent ::
  "bool \<Rightarrow> nat \<Rightarrow> EventId \<Rightarrow> 'st Guts \<times> EventsAndCauses \<times> EventId list
     \<Rightarrow> error + ('st Guts \<times> EventsAndCauses \<times> EventId list)" where
  "noteEvent apiChecks trigger eid s =
     (case s of (g, appendTriggeredEvents, appendIgnoredEvents) \<Rightarrow>
        case hasEvent apiChecks g eid of
          Inl err \<Rightarrow> Inl err
        | Inr False \<Rightarrow>
            if find_if (\<lambda>x. x = eid) appendIgnoredEvents = length appendIgnoredEvents
            then Inr (g, appendTriggeredEvents, appendIgnoredEvents @ [eid])
            else Inr (g, appendTriggeredEvents, appendIgnoredEvents)
        | Inr True \<Rightarrow>
            (case getEvent apiChecks g eid of
               Inl err \<Rightarrow> Inl err
             | Inr evnt \<Rightarrow>
                 let e = find_if (\<lambda>et. fst et = eid) appendTriggeredEvents in
                 if e = length appendTriggeredEvents
                 then Inr (noteEventOccurred eid g, appendTriggeredEvents @ [(eid, [trigger])],
                           appendIgnoredEvents)
                 else Inr (g,
                           appendTriggeredEvents[e := (fst (appendTriggeredEvents ! e),
                                                       snd (appendTriggeredEvents ! e) @ [trigger])],
                           appendIgnoredEvents)))"

fun noteEvents ::
  "bool \<Rightarrow> nat \<Rightarrow> EventId list \<Rightarrow> 'st Guts \<times> EventsAndCauses \<times> EventId list
     \<Rightarrow> error + ('st Guts \<times> EventsAndCauses \<times> EventId list)" where
  "noteEvents apiChecks trigger [] s = Inr s"
| "noteEvents apiChecks trigger (eid # eids) s =
     (case noteEvent apiChecks trigger eid s of
        Inl err \<Rightarrow> Inl err
      | Inr s' \<Rightarrow> noteEvents apiChecks trigger eids s')"

fun noteTriggers ::
  "bool \<Rightarrow> nat list \<Rightarrow> triggerStore \<times> 'st Guts \<times> EventsAndCauses \<times> EventId list
     \<Rightarrow> error + (triggerStore \<times> 'st Guts \<times> EventsAndCauses \<times> EventId list)" where
  "noteTriggers apiChecks [] s = Inr s"
| "noteTriggers apiChecks (trigger # rest) (store, s) =
     (let store' = noteTriggerOccurrence trigger store in
      case noteEvents apiChecks trigger (m_eventIds (store' trigger)) s of
        Inl err \<Rightarrow> Inl err
      | Inr s' \<Rightarrow> noteTriggers apiChecks rest (store', s'))"

definition noteEventOccurrence ::
  "bool \<Rightarrow> nat list \<Rightarrow> triggerStore \<Rightarrow> 'st Guts \<Rightarrow> EventsAndCauses \<Rightarrow> EventId list
     \<Rightarrow> error + (triggerStore \<times> 'st Guts \<times> EventsAndCauses \<times> EventId list)" where
  "noteEventOccurrence apiChecks triggers store g appendTriggeredEvents appendIgnoredEvents =
     noteTriggers apiChecks triggers (store, g, appendTriggeredEvents, appendIgnoredEvents)"

text \<open>
  What the claims say about the resolver, in the claims' words. \<open>claimsOf\<close> lists the
  pairs (trigger, event id it claims to cause) in the order the loops meet them;
  \<open>causesOf\<close> is the list of the triggers that claimed one event, in that order; an event
  id is recognized when it is in range and its slot is occupied; \<open>firstSeen\<close> keeps the
  first occurrence of every element.
\<close>

definition claimsOf :: "triggerStore \<Rightarrow> nat list \<Rightarrow> (nat \<times> EventId) list" where
  "claimsOf store triggers = concat (map (\<lambda>t. map (Pair t) (m_eventIds (store t))) triggers)"

definition causesOf :: "(nat \<times> EventId) list \<Rightarrow> EventId \<Rightarrow> nat list" where
  "causesOf claims eid = map fst (filter (\<lambda>c. snd c = eid) claims)"

definition recognized :: "'st Guts \<Rightarrow> EventId \<Rightarrow> bool" where
  "recognized g eid = (isIndexInRange eid (getNumEvents g) \<and> m_events g ! nat eid \<noteq> None)"

definition firstSeen :: "'a list \<Rightarrow> 'a list" where
  "firstSeen xs = rev (remdups (rev xs))"

text \<open>
  \<open>bumped n es\<close>: the events array \<open>es\<close> with the occurrence counter of every event
  whose slot number is in \<open>n\<close> raised by one, and nothing else changed.
\<close>

definition bumped :: "EventId list \<Rightarrow> 'st Event option list \<Rightarrow> 'st Event option list" where
  "bumped n es =
     map (\<lambda>(k, p). if int k \<in> set n
                    then map_option (\<lambda>e. e\<lparr>m_eventOccurrences := m_eventOccurrences e + 1\<rparr>) p
                    else p)
       (zip [0..<length es] es)"

text \<open>
  The events and the ignored ids that a call adds: the recognized claimed ids that are
  not yet among the entries given, and the unrecognized claimed ids that are not yet
  among the ignored ids given, each once, in first-seen order.
\<close>

definition newEvents :: "'st Guts \<Rightarrow> EventsAndCauses \<Rightarrow> (nat \<times> EventId) list \<Rightarrow> EventId list" where
  "newEvents g0 te0 claims =
     firstSeen (filter (\<lambda>e. recognized g0 e \<and> e \<notin> set (map fst te0)) (map snd claims))"

definition newIgnored :: "'st Guts \<Rightarrow> EventId list \<Rightarrow> (nat \<times> EventId) list \<Rightarrow> EventId list" where
  "newIgnored g0 ig0 claims =
     firstSeen (filter (\<lambda>e. \<not> recognized g0 e \<and> e \<notin> set ig0) (map snd claims))"

text \<open>
  For the proofs: the loop body without its error branches, and the invariant of the
  loops after the claims \<open>claims\<close> have been handled, starting from the registry
  \<open>g0\<close> and the output arrays \<open>te0\<close> and \<open>ig0\<close>.
\<close>

definition pureStep ::
  "('st Guts \<Rightarrow> EventId \<Rightarrow> bool) \<Rightarrow> 'st Guts \<times> EventsAndCauses \<times> EventId list \<Rightarrow> nat \<times> EventId
     \<Rightarrow> 'st Guts \<times> EventsAndCauses \<times> EventId list" where
  "pureStep R s c = (case s of (g, te, ig) \<Rightarrow> case c of (t, e) \<Rightarrow>
     if \<not> R g e then (g, te, if e \<in> set ig then ig else ig @ [e])
     else if e \<notin> set (map fst te) then (noteEventOccurred e g, te @ [(e, [t])], ig)
     else (g, te[find_if (\<lambda>et. fst et = e) te :=
                   (fst (te ! find_if (\<lambda>et. fst et = e) te),
                    snd (te ! find_if (\<lambda>et. fst et = e) te) @ [t])], ig))"

definition causesInv ::
  "'st Guts \<Rightarrow> EventsAndCauses \<Rightarrow> (nat \<times> EventId) list \<Rightarrow> EventsAndCauses \<Rightarrow> bool" where
  "causesInv g0 te0 claims te =
     (\<forall>i<length te.
        snd (te ! i) =
          (if i < length te0 then snd (te0 ! i) else []) @
          (if i = find_if (\<lambda>k. k = fst (te ! i)) (map fst te) \<and> recognized g0 (fst (te ! i))
           then causesOf claims (fst (te ! i)) else []))"

definition resInv ::
  "'st Guts \<Rightarrow> EventsAndCauses \<Rightarrow> EventId list \<Rightarrow> (nat \<times> EventId) list
     \<Rightarrow> 'st Guts \<times> EventsAndCauses \<times> EventId list \<Rightarrow> bool" where
  "resInv g0 te0 ig0 claims s = (case s of (g, te, ig) \<Rightarrow>
     g = g0\<lparr>m_events := bumped (newEvents g0 te0 claims) (m_events g0)\<rparr> \<and>
     map fst te = map fst te0 @ newEvents g0 te0 claims \<and>
     causesInv g0 te0 claims te \<and>
     ig = ig0 @ newIgnored g0 ig0 claims)"

section \<open>The active-set queries\<close>





section \<open>The action dispatcher\<close>

text \<open>
  The state of a study, as far as \<^verbatim>\<open>performEventChangeActions\<close> reads it: the version
  number of every stage, in stage order. The class \<^verbatim>\<open>State\<close> is not among the sources;
  a state with more in it is an extension of this record.
\<close>

record State =
  m_stageVersions :: "nat list"

text \<open>
  Modelled from the spec: \<^verbatim>\<open>State::getSystemStageVersions\<close> (missing) gives the
  version numbers of the stages.
\<close>

definition getSystemStageVersions :: "'z State_scheme \<Rightarrow> nat list" where
  "getSystemStageVersions state = m_stageVersions state"

text \<open>
  Modelled from the spec: \<^verbatim>\<open>State::getLowestSystemStageDifference\<close> (missing) gives
  the lowest stage whose version number differs from the one in the snapshot, and no
  stage when none differs.
\<close>

definition getLowestSystemStageDifference :: "'z State_scheme \<Rightarrow> nat list \<Rightarrow> Stage" where
  "getLowestSystemStageDifference state prev =
     (let both = zip (m_stageVersions state) prev;
          d = find_if (\<lambda>p. fst p \<noteq> snd p) both
      in if d = length both then None else Some d)"

text \<open>
  Modelled from the spec: \<^verbatim>\<open>Event::performChangeActions(study, triggers, result)\<close>
  (missing) invokes every Change action of the event, in the order the actions were
  adopted, with the study, the causes and the result.
\<close>

fun performChangeActions ::
  "'st EventAction list \<Rightarrow> nat list \<Rightarrow> 'st \<times> EventChangeResult \<Rightarrow> 'st \<times> EventChangeResult" where
  "performChangeActions [] triggers sr = sr"
| "performChangeActions (ReportAction # actions) triggers sr =
     performChangeActions actions triggers sr"
| "performChangeActions (ChangeAction f # actions) triggers (study, result) =
     performChangeActions actions triggers (f study triggers result)"

text \<open>
  \<^verbatim>\<open>performEventChangeActions\<close>. The entries pair an event (the object the entry
  points to) with its causes. The study is its internal state.
\<close>

fun changeLoop ::
  "('z State_scheme Event \<times> nat list) list \<Rightarrow> 'z State_scheme \<times> EventChangeResult
     \<Rightarrow> 'z State_scheme \<times> EventChangeResult" where
  "changeLoop [] sr = sr"
| "changeLoop (et # rest) sr =
     changeLoop rest (performChangeActions (m_actions (fst et)) (snd et) sr)"

definition performEventChangeActions ::
  "'z State_scheme \<Rightarrow> ('z State_scheme Event \<times> nat list) list \<Rightarrow> EventChangeResult
     \<Rightarrow> error + ('z State_scheme \<times> EventChangeResult)" where
  "performEventChangeActions study triggeredEvents result =
     (if triggeredEvents = [] then Inl AssertFailed
      else
        let stageVersions = getSystemStageVersions study;
            result0 = clearResult result;
            (state, result1) = changeLoop triggeredEvents (study, result0);
            lowestModified = getLowestSystemStageDifference state stageVersions
        in Inr (state, setLowestModifiedStage lowestModified result1))"

text \<open>
  What C5 says, in its words: the Change actions of the listed events, in list order,
  each with the causes of its entry; running them one after the other; and the lowest
  stage at which two version vectors differ.
\<close>

definition changeActionsOf ::
  "('st Event \<times> nat list) list
     \<Rightarrow> (('st \<Rightarrow> nat list \<Rightarrow> EventChangeResult \<Rightarrow> 'st \<times> EventChangeResult) \<times> nat list) list" where
  "changeActionsOf triggeredEvents =
     concat (map (\<lambda>et.
        concat (map (\<lambda>a. case a of ReportAction \<Rightarrow> [] | ChangeAction f \<Rightarrow> [(f, snd et)])
                  (m_actions (fst et))))
       triggeredEvents)"

definition invokeAll ::
  "(('st \<Rightarrow> nat list \<Rightarrow> EventChangeResult \<Rightarrow> 'st \<times> EventChangeResult) \<times> nat list) list
     \<Rightarrow> 'st \<times> EventChangeResult \<Rightarrow> 'st \<times> EventChangeResult" where
  "invokeAll calls sr = foldl (\<lambda>sr call. fst call (fst sr) (snd call) (snd sr)) sr calls"

definition isLowestDifference :: "nat list \<Rightarrow> nat list \<Rightarrow> Stage \<Rightarrow> bool" where
  "isLowestDifference before after g =
     (case g of
        None \<Rightarrow> list_all (\<lambda>p. fst p = snd p) (zip after before)
      | Some d \<Rightarrow> d < length (zip after before) \<and> after ! d \<noteq> before ! d \<and>
                 list_all (\<lambda>p. fst p = snd p) (take d (zip after before)))"

section \<open>Properties of the dynamic trigger collection\<close>

lemmas collection_eval =
  runOps_def emptyCollection_def adoptTimer_def removeTimer_def adoptWitness_def
  removeWitness_def adoptThing_def removeThing_def findFreeSlot_def

lemma slotsInv_iff:
  "slotsInv things fs =
     (distinct fs \<and> (\<forall>i\<in>set fs. i < length things) \<and>
      (\<forall>i<length things. (things ! i = None) = (i \<in> set fs)))"
  by (auto simp: slotsInv_def list_all_iff)

lemma adoptThing_reuse:
  assumes "slotsInv things fs" "fs \<noteq> []"
  shows "adoptThing asserts thing things fs = Inr (last fs, things[last fs := thing], butlast fs)"
proof -
  from assms have "last fs \<in> set fs" by simp
  with assms(1) have "last fs < length things" "things ! last fs = None"
    by (auto simp: slotsInv_iff)
  with assms(2) show ?thesis by (simp add: adoptThing_def findFreeSlot_def)
qed

lemma adoptThing_append:
  "adoptThing asserts thing things [] = Inr (length things, things @ [thing], [])"
  by (simp add: adoptThing_def findFreeSlot_def)

lemma removeThing_last:
  "things \<noteq> [] \<Longrightarrow> last things \<noteq> None \<Longrightarrow>
   removeThing asserts (length things - 1) things fs = Inr (butlast things, fs)"
  by (simp add: removeThing_def last_conv_nth)

lemma removeThing_interior:
  "ix < length things - 1 \<Longrightarrow> things ! ix \<noteq> None \<Longrightarrow>
   removeThing asserts ix things fs = Inr (things[ix := None], fs @ [ix])"
  by (simp add: removeThing_def)

lemma adoptThing_inv:
  assumes "slotsInv things fs" "thing \<noteq> None"
  shows "\<exists>ix things' fs'. adoptThing asserts thing things fs = Inr (ix, things', fs') \<and>
           slotsInv things' fs'"
proof (cases "fs = []")
  case True
  with assms have "slotsInv (things @ [thing]) []"
    by (auto simp: slotsInv_iff nth_append)
  with True show ?thesis by (simp add: adoptThing_append)
next
  case False
  then obtain ys y where fs: "fs = ys @ [y]" by (metis rev_exhaust)
  with assms have "slotsInv (things[last fs := thing]) (butlast fs)"
    by (auto simp: slotsInv_iff nth_list_update)
  with adoptThing_reuse [OF assms(1) False] show ?thesis by simp
qed

lemma removeThing_inv:
  assumes "slotsInv things fs" "ix < length things" "things ! ix \<noteq> None"
  shows "\<exists>things' fs'. removeThing asserts ix things fs = Inr (things', fs') \<and>
           slotsInv things' fs'"
proof (cases "ix = length things - 1")
  case True
  have lt: "i < length things - 1" if "i \<in> set fs" for i
  proof -
    from that assms(1) have "i < length things" "things ! i = None"
      by (auto simp: slotsInv_iff)
    with assms(3) True show ?thesis by (cases "i = length things - 1") auto
  qed
  from assms(1) lt have "slotsInv (butlast things) fs"
    by (auto simp: slotsInv_iff nth_butlast)
  moreover from assms(2,3) True
  have "removeThing asserts ix things fs = Inr (butlast things, fs)"
    by (simp add: removeThing_def)
  ultimately show ?thesis by simp
next
  case False
  with assms have "slotsInv (things[ix := None]) (fs @ [ix])"
    by (auto simp: slotsInv_iff nth_list_update)
  moreover from assms(2,3) False
  have "removeThing asserts ix things fs = Inr (things[ix := None], fs @ [ix])"
    by (simp add: removeThing_def)
  ultimately show ?thesis by simp
qed

lemma applyOp_inv:
  assumes "collectionInv (snd s)" "callAllowed x (snd s)"
  shows "\<exists>s'. applyOp asserts x s = Inr s' \<and> collectionInv (snd s')"
proof -
  obtain ixs c where s: "s = (ixs, c)" by (cases s)
  from assms s have t: "slotsInv (m_timers c) (m_freeTimers c)"
    and w: "slotsInv (m_witnesses c) (m_freeWitnesses c)"
    by (simp_all add: collectionInv_def)
  show ?thesis
  proof (cases x)
    case (AdoptTimer p)
    with assms(2) have "p \<noteq> None" by (simp add: callAllowed_def)
    from adoptThing_inv [OF t this, of asserts] w AdoptTimer s show ?thesis
      by (auto simp: adoptTimer_def collectionInv_def)
  next
    case (RemoveTimer ix)
    with assms(2) s have "ix < length (m_timers c)" "m_timers c ! ix \<noteq> None"
      by (simp_all add: callAllowed_def)
    from removeThing_inv [OF t this, of asserts] w RemoveTimer s show ?thesis
      by (auto simp: removeTimer_def collectionInv_def)
  next
    case (AdoptWitness p)
    with assms(2) have "p \<noteq> None" by (simp add: callAllowed_def)
    from adoptThing_inv [OF w this, of asserts] t AdoptWitness s show ?thesis
      by (auto simp: adoptWitness_def collectionInv_def)
  next
    case (RemoveWitness ix)
    with assms(2) s have "ix < length (m_witnesses c)" "m_witnesses c ! ix \<noteq> None"
      by (simp_all add: callAllowed_def)
    from removeThing_inv [OF w this, of asserts] t RemoveWitness s show ?thesis
      by (auto simp: removeWitness_def collectionInv_def)
  qed
qed

lemma applyOps_inv:
  "collectionInv (snd s) \<Longrightarrow> callsAllowed asserts xs s \<Longrightarrow>
   \<exists>s'. applyOps asserts xs s = Inr s' \<and> collectionInv (snd s')"
proof (induction xs arbitrary: s)
  case Nil
  then show ?case by (simp del: split_paired_Ex)
next
  case (Cons x xs)
  from Cons.prems have ok: "callAllowed x (snd s)"
    and rest: "callsAllowed asserts xs (afterCall asserts x s)" by simp_all
  from applyOp_inv [OF Cons.prems(1) ok, of asserts] obtain s1 where
    s1: "applyOp asserts x s = Inr s1" "collectionInv (snd s1)" by blast
  with rest have "callsAllowed asserts xs s1" by (simp add: afterCall_def)
  from Cons.IH [OF s1(2) this] s1(1) show ?case by (simp del: split_paired_Ex)
qed

lemma emptyCollection_inv: "collectionInv emptyCollection"
  by (simp add: collectionInv_def emptyCollection_def slotsInv_def)

text \<open>
  Without assertions a removal of a slot that is empty already goes through and pushes
  the slot number a second time; with assertions it fails.
\<close>

lemma double_removal:
  "runOps False [AdoptWitness (Some (1 :: nat)), AdoptWitness (Some 2), AdoptWitness (Some 3),
                 RemoveWitness 0, RemoveWitness 0] =
     Inr ([0, 1, 2], \<lparr>m_timers = ([] :: nat option list), m_freeTimers = [],
            m_witnesses = [None, Some 2, Some 3], m_freeWitnesses = [0, 0]\<rparr>) \<and>
   runOps True [AdoptWitness (Some (1 :: nat)), AdoptWitness (Some 2), AdoptWitness (Some 3),
                RemoveWitness 0, RemoveWitness 0] =
     (Inl AssertFailed :: error + nat list \<times> (nat, nat) EventTriggerCollection)"
  by (simp add: collection_eval)

text \<open>
  C6, as the code runs it, with and without assertions. Adopting \<open>W1\<close>, \<open>W2\<close>,
  \<open>W3\<close> gives the slots 0, 1, 2; after removing slot 1, adopting \<open>W4\<close> gives slot 1
  again. Removing slot 1 (an interior slot: it is emptied and pushed on the free stack)
  and then slot 2 (the last slot: one element is popped) leaves an array of length 2:
  \<open>W1\<close> in slot 0 and the empty slot 1, which is on the free stack. The pop does not take
  trailing empty slots with it.
\<close>

theorem slot_recycling:
  "runOps asserts [AdoptWitness (Some w1), AdoptWitness (Some w2), AdoptWitness (Some w3),
           RemoveWitness 1, AdoptWitness (Some w4)] =
     Inr ([0, 1, 2, 1], \<lparr>m_timers = ([] :: 't option list), m_freeTimers = [],
            m_witnesses = [Some w1, Some w4, Some w3], m_freeWitnesses = []\<rparr>) \<and>
   runOps asserts [AdoptWitness (Some w1), AdoptWitness (Some w2), AdoptWitness (Some w3),
           RemoveWitness 1, AdoptWitness (Some w4), RemoveWitness 1, RemoveWitness 2] =
     Inr ([0, 1, 2, 1], \<lparr>m_timers = ([] :: 't option list), m_freeTimers = [],
            m_witnesses = [Some w1, None], m_freeWitnesses = [1]\<rparr>)"
  by (simp add: collection_eval)

text \<open>
  C6 as stated fails: at the end of the scenario the witness array does not have
  length 1, in either build.
\<close>

theorem slot_recycling_length_counterexample:
  "(case runOps True [AdoptWitness (Some (1 :: nat)), AdoptWitness (Some 2), AdoptWitness (Some 3),
                 RemoveWitness 1, AdoptWitness (Some 4), RemoveWitness 1, RemoveWitness 2]
    of Inl e \<Rightarrow> False
     | Inr (ixs, c :: (nat, nat) EventTriggerCollection) \<Rightarrow>
         length (m_witnesses c) = 2 \<and> length (m_witnesses c) \<noteq> 1) \<and>
   (case runOps False [AdoptWitness (Some (1 :: nat)), AdoptWitness (Some 2), AdoptWitness (Some 3),
                 RemoveWitness 1, AdoptWitness (Some 4), RemoveWitness 1, RemoveWitness 2]
    of Inl e \<Rightarrow> False
     | Inr (ixs, c :: (nat, nat) EventTriggerCollection) \<Rightarrow>
         length (m_witnesses c) = 2 \<and> length (m_witnesses c) \<noteq> 1)"
  by (simp add: collection_eval)

text \<open>
  C7, amended. In either build, over every sequence of calls from the empty collection in
  which every adoption is of a non-null object and every removal is of a slot that holds
  an object: every call succeeds, and both arrays keep the invariant: no slot number is
  twice on the free stack, and a slot is empty exactly when its number is on the free
  stack. Adoption into an array in that state reuses the top of a non-empty free stack
  and pops it; with an empty free stack it appends a slot. Removal of the (occupied) last
  slot pops one element; removal of an occupied slot before the last empties it and
  pushes its number.
\<close>

theorem collection_invariant:
  "(callsAllowed asserts xs ([], emptyCollection) \<longrightarrow>
      (\<exists>ixs c. runOps asserts xs = Inr (ixs, c) \<and> collectionInv c)) \<and>
   (slotsInv things fs \<and> fs \<noteq> [] \<longrightarrow>
      adoptThing asserts thing things fs = Inr (last fs, things[last fs := thing], butlast fs)) \<and>
   adoptThing asserts thing things [] = Inr (length things, things @ [thing], []) \<and>
   (things \<noteq> [] \<and> last things \<noteq> None \<longrightarrow>
      removeThing asserts (length things - 1) things fs = Inr (butlast things, fs)) \<and>
   (ix < length things - 1 \<and> things ! ix \<noteq> None \<longrightarrow>
      removeThing asserts ix things fs = Inr (things[ix := None], fs @ [ix]))"
proof -
  have "\<exists>ixs c. runOps asserts xs = Inr (ixs, c) \<and> collectionInv c"
    if "callsAllowed asserts xs ([], emptyCollection)"
    using applyOps_inv [of "([], emptyCollection)" asserts xs] that
    by (simp add: runOps_def emptyCollection_inv)
  then show ?thesis
    using adoptThing_reuse adoptThing_append removeThing_last removeThing_interior
    by blast
qed

theorem collection_invariant_witness:
  "callsAllowed False [AdoptTimer (Some (7::nat)), AdoptWitness (Some (1::nat)), AdoptWitness (Some 2),
                       RemoveWitness 0] ([], emptyCollection) \<and>
   runOps False [AdoptTimer (Some (7::nat)), AdoptWitness (Some (1::nat)), AdoptWitness (Some 2),
                 RemoveWitness 0] =
     Inr ([0, 0, 1], \<lparr>m_timers = [Some 7], m_freeTimers = [], m_witnesses = [None, Some 2],
                       m_freeWitnesses = [0]\<rparr>) \<and>
   collectionInv \<lparr>m_timers = [Some (7::nat)], m_freeTimers = [], m_witnesses = [None, Some (2::nat)],
                   m_freeWitnesses = [0]\<rparr> \<and>
   slotsInv [None, Some (2::nat)] [0] \<and>
   adoptThing False (Some 3) [None, Some (2::nat)] [0] = Inr (0, [Some 3, Some 2], []) \<and>
   removeThing False 1 [Some (3::nat), Some 2] [] = Inr ([Some 3], []) \<and>
   removeThing False 0 [Some (3::nat), Some 2] [] = Inr ([None, Some 2], [0])"
proof -
  let ?xs = "[AdoptTimer (Some (7::nat)), AdoptWitness (Some (1::nat)), AdoptWitness (Some 2),
              RemoveWitness 0]"
  have ok: "callsAllowed False ?xs ([], emptyCollection)"
    by (simp add: callAllowed_def afterCall_def collection_eval)
  have run: "runOps False ?xs =
     Inr ([0, 0, 1], \<lparr>m_timers = [Some 7], m_freeTimers = [], m_witnesses = [None, Some 2],
                       m_freeWitnesses = [0]\<rparr>)"
    by (simp add: collection_eval)
  from collection_invariant [of False ?xs "[None, Some (2::nat)]" "[0]" "Some 3" 0] ok run
  have a: "collectionInv \<lparr>m_timers = [Some (7::nat)], m_freeTimers = [],
              m_witnesses = [None, Some (2::nat)], m_freeWitnesses = [0]\<rparr>"
    by simp
  then have b: "slotsInv [None, Some (2::nat)] [0]" by (simp add: collectionInv_def)
  from collection_invariant [of False ?xs "[None, Some (2::nat)]" "[0]" "Some 3" 0] b
  have c: "adoptThing False (Some 3) [None, Some (2::nat)] [0] = Inr (0, [Some 3, Some 2], [])"
    by simp
  from collection_invariant [of False "[]" "[Some (3::nat), Some 2]" "[]" None 0]
  have d: "removeThing False 1 [Some (3::nat), Some 2] [] = Inr ([Some 3], [])"
    and e: "removeThing False 0 [Some (3::nat), Some 2] [] = Inr ([None, Some 2], [0])"
    by auto
  from ok run a b c d e show ?thesis by simp
qed

text \<open>
  C7 as stated fails: adopting a null pointer is accepted in either build (the slot found
  is empty, as asserted, and is reset to null), and leaves an empty slot that is not on
  the free stack.
\<close>

theorem null_adoption_counterexample:
  "runOps True [AdoptWitness (None :: nat option)] =
     Inr ([0], \<lparr>m_timers = ([] :: nat option list), m_freeTimers = [],
                m_witnesses = [None], m_freeWitnesses = []\<rparr>) \<and>
   runOps False [AdoptWitness (None :: nat option)] =
     Inr ([0], \<lparr>m_timers = ([] :: nat option list), m_freeTimers = [],
                m_witnesses = [None], m_freeWitnesses = []\<rparr>) \<and>
   \<not> collectionInv \<lparr>m_timers = ([] :: nat option list), m_freeTimers = [],
                      m_witnesses = [None :: nat option], m_freeWitnesses = []\<rparr>"
  by (simp add: collection_eval collectionInv_def slotsInv_def)

section \<open>Properties of the registries\<close>

lemma adoptOne_inv: "regInv s \<Longrightarrow> regInv (adoptOne x s)"
  by (cases x; cases s)
     (auto simp: regInv_def adoptEvent_def adoptEventTrigger_def Let_def nth_append
           split: option.splits)

lemma foldl_adoptOne_inv: "regInv s \<Longrightarrow> regInv (foldl (\<lambda>s x. adoptOne x s) s xs)"
  by (induction xs arbitrary: s) (auto simp: adoptOne_inv)

lemma adoptAll_inv: "regInv (adoptAll xs)"
  unfolding adoptAll_def by (rule foldl_adoptOne_inv) (simp add: regInv_def newGuts_def)

text \<open>
  C9. After any sequence of adoptions from the empty registries (null pointers are
  rejected and change nothing): the event ids and trigger ids handed out are consecutive
  from 0 in adoption order; no slot of either registry is empty; for every id \<open>k\<close> with
  \<open>0 \<le> k < numEvents\<close>, \<^verbatim>\<open>hasEvent(k)\<close> is true and \<^verbatim>\<open>getEvent(k)\<close> and
  \<^verbatim>\<open>updEvent(k)\<close> return the event whose own id is \<open>k\<close>; the empty-slot error of the
  validated lookups is returned for no id at all; and the same for triggers.
\<close>

theorem registry_no_empty_slot:
  assumes "adoptAll xs = (eids, tids, g)"
  shows "eids = map int [0..<length (m_events g)] \<and>
         tids = map int [0..<length (m_triggers g)] \<and>
         list_all (\<lambda>p. p \<noteq> None) (m_events g) \<and>
         list_all (\<lambda>p. p \<noteq> None) (m_triggers g) \<and>
         (\<forall>k. 0 \<le> k \<and> k < getNumEvents g \<longrightarrow>
            hasEvent apiChecks g k = Inr True \<and>
            (\<exists>e. getEvent apiChecks g k = Inr e \<and> updEvent apiChecks g k = Inr e \<and> m_eventId e = k)) \<and>
         (\<forall>k. 0 \<le> k \<and> k < getNumEventTriggers g \<longrightarrow>
            hasEventTrigger apiChecks g k = Inr True \<and>
            (\<exists>t. getEventTrigger apiChecks g k = Inr t \<and> updEventTrigger apiChecks g k = Inr t \<and>
                 m_triggerId t = k)) \<and>
         (\<forall>k. getEvent apiChecks g k \<noteq> Inl ErrorCheck \<and> updEvent apiChecks g k \<noteq> Inl ErrorCheck \<and>
              getEventTrigger apiChecks g k \<noteq> Inl ErrorCheck \<and>
              updEventTrigger apiChecks g k \<noteq> Inl ErrorCheck) \<and>
         adoptEvent None g = Inl APIArgcheckFailed \<and>
         adoptEventTrigger None g = Inl APIArgcheckFailed"
proof -
  from assms adoptAll_inv [of xs] have inv: "regInv (eids, tids, g)" by simp
  then have ids: "eids = map int [0..<length (m_events g)]" "tids = map int [0..<length (m_triggers g)]"
    and ev: "\<And>i. i < length (m_events g) \<Longrightarrow> \<exists>e. m_events g ! i = Some e \<and> m_eventId e = int i"
    and tr: "\<And>i. i < length (m_triggers g) \<Longrightarrow> \<exists>t. m_triggers g ! i = Some t \<and> m_triggerId t = int i"
    by (auto simp: regInv_def)
  have full: "list_all (\<lambda>p. p \<noteq> None) (m_events g)" "list_all (\<lambda>p. p \<noteq> None) (m_triggers g)"
    using ev tr by (fastforce simp: list_all_length)+
  have evk: "hasEvent apiChecks g k = Inr True \<and>
            (\<exists>e. getEvent apiChecks g k = Inr e \<and> updEvent apiChecks g k = Inr e \<and> m_eventId e = k)"
    if "0 \<le> k" "k < getNumEvents g" for k
  proof -
    from that have "nat k < length (m_events g)" by (simp add: getNumEvents_def)
    from ev [OF this] that show ?thesis
      by (auto simp: hasEvent_def getEvent_def updEvent_def isValid_def isIndexInRange_def)
  qed
  have trk: "hasEventTrigger apiChecks g k = Inr True \<and>
            (\<exists>t. getEventTrigger apiChecks g k = Inr t \<and> updEventTrigger apiChecks g k = Inr t \<and>
                 m_triggerId t = k)"
    if "0 \<le> k" "k < getNumEventTriggers g" for k
  proof -
    from that have "nat k < length (m_triggers g)" by (simp add: getNumEventTriggers_def)
    from tr [OF this] that show ?thesis
      by (auto simp: hasEventTrigger_def getEventTrigger_def updEventTrigger_def isValid_def
            isIndexInRange_def)
  qed
  have nomiss: "getEvent apiChecks g k \<noteq> Inl ErrorCheck \<and> updEvent apiChecks g k \<noteq> Inl ErrorCheck \<and>
              getEventTrigger apiChecks g k \<noteq> Inl ErrorCheck \<and>
              updEventTrigger apiChecks g k \<noteq> Inl ErrorCheck" for k
  proof -
    have e: "getEvent apiChecks g k \<noteq> Inl ErrorCheck \<and> updEvent apiChecks g k \<noteq> Inl ErrorCheck"
    proof (cases "0 \<le> k \<and> k < getNumEvents g")
      case True
      with evk [of k] show ?thesis by auto
    next
      case False
      then show ?thesis by (auto simp: getEvent_def updEvent_def isIndexInRange_def)
    qed
    have t: "getEventTrigger apiChecks g k \<noteq> Inl ErrorCheck \<and>
             updEventTrigger apiChecks g k \<noteq> Inl ErrorCheck"
    proof (cases "0 \<le> k \<and> k < getNumEventTriggers g")
      case True
      with trk [of k] show ?thesis by auto
    next
      case False
      then show ?thesis by (auto simp: getEventTrigger_def updEventTrigger_def isIndexInRange_def)
    qed
    from e t show ?thesis by simp
  qed
  show ?thesis
    using ids full evk trk nomiss by (simp add: adoptEvent_def adoptEventTrigger_def)
qed

theorem registry_no_empty_slot_witness:
  "adoptAll [AdoptEvent (Some \<lparr>m_eventId = - 1, m_actions = ([] :: unit EventAction list), m_eventOccurrences = 0\<rparr>),
             AdoptEvent None,
             AdoptEventTrigger (Some \<lparr>m_triggerId = - 1, m_eventIds = [0], m_triggerOccurrences = 0\<rparr>),
             AdoptEvent (Some \<lparr>m_eventId = - 1, m_actions = [ReportAction], m_eventOccurrences = 0\<rparr>)] =
     ([0, 1], [0],
      \<lparr>m_events = [Some \<lparr>m_eventId = 0, m_actions = [], m_eventOccurrences = 0\<rparr>,
                   Some \<lparr>m_eventId = 1, m_actions = [ReportAction], m_eventOccurrences = 0\<rparr>],
       m_triggers = [Some \<lparr>m_triggerId = 0, m_eventIds = [0], m_triggerOccurrences = 0\<rparr>],
       m_timers_cache = [], m_witnesses_cache = []\<rparr>) \<and>
   hasEvent True
      \<lparr>m_events = [Some \<lparr>m_eventId = 0, m_actions = ([] :: unit EventAction list), m_eventOccurrences = 0\<rparr>,
                   Some \<lparr>m_eventId = 1, m_actions = [ReportAction], m_eventOccurrences = 0\<rparr>],
       m_triggers = [Some \<lparr>m_triggerId = 0, m_eventIds = [0], m_triggerOccurrences = 0\<rparr>],
       m_timers_cache = [], m_witnesses_cache = []\<rparr> 1 = Inr True \<and>
   getEvent True
      \<lparr>m_events = [Some \<lparr>m_eventId = 0, m_actions = ([] :: unit EventAction list), m_eventOccurrences = 0\<rparr>,
                   Some \<lparr>m_eventId = 1, m_actions = [ReportAction], m_eventOccurrences = 0\<rparr>],
       m_triggers = [Some \<lparr>m_triggerId = 0, m_eventIds = [0], m_triggerOccurrences = 0\<rparr>],
       m_timers_cache = [], m_witnesses_cache = []\<rparr> 1 =
     Inr \<lparr>m_eventId = 1, m_actions = [ReportAction], m_eventOccurrences = 0\<rparr>"
proof -
  let ?xs = "[AdoptEvent (Some \<lparr>m_eventId = - 1, m_actions = ([] :: unit EventAction list), m_eventOccurrences = 0\<rparr>),
             AdoptEvent None,
             AdoptEventTrigger (Some \<lparr>m_triggerId = - 1, m_eventIds = [0], m_triggerOccurrences = 0\<rparr>),
             AdoptEvent (Some \<lparr>m_eventId = - 1, m_actions = [ReportAction], m_eventOccurrences = 0\<rparr>)]"
  let ?g = "\<lparr>m_events = [Some \<lparr>m_eventId = 0, m_actions = ([] :: unit EventAction list), m_eventOccurrences = 0\<rparr>,
                   Some \<lparr>m_eventId = 1, m_actions = [ReportAction], m_eventOccurrences = 0\<rparr>],
       m_triggers = [Some \<lparr>m_triggerId = 0, m_eventIds = [0], m_triggerOccurrences = 0\<rparr>],
       m_timers_cache = [], m_witnesses_cache = []\<rparr>"
  have run: "adoptAll ?xs = ([0, 1], [0], ?g)"
    by (simp add: adoptAll_def newGuts_def adoptEvent_def adoptEventTrigger_def)
  from registry_no_empty_slot [OF run, of True]
  have "\<forall>k. 0 \<le> k \<and> k < getNumEvents ?g \<longrightarrow> hasEvent True ?g k = Inr True \<and>
            (\<exists>e. getEvent True ?g k = Inr e \<and> updEvent True ?g k = Inr e \<and> m_eventId e = k)"
    by blast
  then have "0 \<le> (1::int) \<and> 1 < getNumEvents ?g \<longrightarrow> hasEvent True ?g 1 = Inr True \<and>
            (\<exists>e. getEvent True ?g 1 = Inr e \<and> updEvent True ?g 1 = Inr e \<and> m_eventId e = 1)"
    by (rule spec)
  then have "hasEvent True ?g 1 = Inr True"
    by (simp add: getNumEvents_def)
  moreover have "getEvent True ?g 1 = Inr \<lparr>m_eventId = 1, m_actions = [ReportAction], m_eventOccurrences = 0\<rparr>"
    by (simp add: getEvent_def isValid_def isIndexInRange_def getNumEvents_def)
  ultimately show ?thesis using run by simp
qed

text \<open>
  C8, amended. For every valid (non-negative) id, \<^verbatim>\<open>hasEvent\<close> returns without an
  error, and returns true exactly when the id is in range and its slot is occupied (so
  false for an id out of range). For an invalid (negative) id it returns false in a build
  without \<^verbatim>\<open>SimTK_APIARGCHECK\<close>, and throws the API argument error in a build with it.
  It returns true only for an in-range id whose slot is occupied.
\<close>

theorem hasEvent_total_amended:
  "(isValid ident \<longrightarrow>
      hasEvent apiChecks g ident =
        Inr (ident < getNumEvents g \<and> m_events g ! nat ident \<noteq> None)) \<and>
   (\<not> isValid ident \<longrightarrow>
      hasEvent False g ident = Inr False \<and> hasEvent True g ident = Inl APIArgcheckFailed) \<and>
   (hasEvent apiChecks g ident = Inr True \<longrightarrow>
      0 \<le> ident \<and> ident < getNumEvents g \<and> m_events g ! nat ident \<noteq> None)"
  by (auto simp: hasEvent_def isValid_def isIndexInRange_def)

theorem hasEvent_total_amended_witness:
  "isValid 0 \<and> \<not> isValid (- 1) \<and>
   hasEvent True (newGuts\<lparr>m_events := [Some \<lparr>m_eventId = 0, m_actions = ([] :: unit EventAction list), m_eventOccurrences = 0\<rparr>]\<rparr>) 0 = Inr True \<and>
   hasEvent True (newGuts\<lparr>m_events := [Some \<lparr>m_eventId = 0, m_actions = ([] :: unit EventAction list), m_eventOccurrences = 0\<rparr>]\<rparr>) 5 = Inr False \<and>
   hasEvent False (newGuts :: unit Guts) (- 1) = Inr False \<and>
   hasEvent True (newGuts :: unit Guts) (- 1) = Inl APIArgcheckFailed"
  using hasEvent_total_amended [of 0 True "newGuts\<lparr>m_events := [Some \<lparr>m_eventId = 0, m_actions = ([] :: unit EventAction list), m_eventOccurrences = 0\<rparr>]\<rparr>"]
    hasEvent_total_amended [of 5 True "newGuts\<lparr>m_events := [Some \<lparr>m_eventId = 0, m_actions = ([] :: unit EventAction list), m_eventOccurrences = 0\<rparr>]\<rparr>"]
    hasEvent_total_amended [of "- 1" True "newGuts :: unit Guts"]
  by (simp add: isValid_def getNumEvents_def newGuts_def)

text \<open>
  C8 as stated fails: with the argument check compiled in, \<^verbatim>\<open>hasEvent\<close> of an invalid
  id throws.
\<close>

theorem hasEvent_invalid_counterexample:
  "hasEvent True (newGuts :: unit Guts) (- 1) = Inl APIArgcheckFailed"
  by (simp add: hasEvent_def isValid_def)


section \<open>Properties of the scheduler\<close>

lemmas scheduler_eval =
  findNextScheduledEventTimes_def getEvent_def isValid_def isIndexInRange_def getNumEvents_def
  hasChangeAction_def isChangeAction_def dgreater_def causesChange_def nextTime_def newGuts_def
  Let_def

lemma dless_irrefl: "\<not> dless x x"
  by (cases x) auto

lemma dless_trans: "dless x y \<Longrightarrow> dless y z \<Longrightarrow> dless x z"
  by (cases x; cases y; cases z) auto

lemma dless_asym: "dless x y \<Longrightarrow> \<not> dless y x"
  by (cases x; cases y) auto

lemma dless_total: "x \<noteq> NaN \<Longrightarrow> y \<noteq> NaN \<Longrightarrow> \<not> dless x y \<Longrightarrow> \<not> dless y x \<Longrightarrow> x = y"
  by (cases x; cases y) auto

lemma dless_NaN: "dless x y \<Longrightarrow> x \<noteq> NaN \<and> y \<noteq> NaN"
  by (cases x; cases y) auto

lemma timerHasChangeAction_causesChange:
  "timerHasChangeAction apiChecks g eids = Inr b \<Longrightarrow>
   b = list_ex (\<lambda>eid. case getEvent apiChecks g eid of Inl err \<Rightarrow> False | Inr e \<Rightarrow> hasChangeAction e) eids"
  by (induction eids) (auto split: sum.splits if_splits)

lemma catInv_pick:
  assumes "catInv P f ps s" "P x" "f x \<noteq> NaN"
  shows "catInv P f (ps @ [x]) (pick x (f x) s)"
proof -
  obtain best lst where s: "s = (best, lst)" by (cases s)
  from assms(1) s have b: "best \<noteq> NaN" and l: "lst = filter (\<lambda>x. P x \<and> f x = best) ps"
    and lo: "\<forall>y\<in>set ps. P y \<longrightarrow> \<not> dless (f y) best"
    and at: "best = dInfinity \<or> (\<exists>y\<in>set ps. P y \<and> f y = best)"
    by (auto simp: catInv_def isEarliest_def list_all_iff list_ex_iff)
  consider (gt) "dless best (f x)" | (lt) "dless (f x) best" | (eq) "f x = best"
    using dless_total [OF assms(3) b] by blast
  then show ?thesis
  proof cases
    case gt
    then have "f x \<noteq> best" using dless_irrefl by auto
    with gt s b l lo at assms(2) show ?thesis
      by (auto simp: catInv_def isEarliest_def pick_def dgreater_def list_all_iff list_ex_iff
            dest: dless_asym)
  next
    case lt
    have "\<not> dless best (f x)" using lt dless_asym by blast
    moreover have "filter (\<lambda>y. P y \<and> f y = f x) ps = []"
    proof -
      have "\<not> (P y \<and> f y = f x)" if "y \<in> set ps" for y
        using lo that lt by auto
      then show ?thesis by (simp add: filter_empty_conv)
    qed
    moreover have "\<forall>y\<in>set ps. P y \<longrightarrow> \<not> dless (f y) (f x)"
      using lo lt dless_trans by blast
    ultimately show ?thesis using lt s assms(2,3)
      by (auto simp: catInv_def isEarliest_def pick_def dgreater_def list_all_iff list_ex_iff
            dless_irrefl)
  next
    case eq
    with s b l lo at assms(2) show ?thesis
      by (auto simp: catInv_def isEarliest_def pick_def dgreater_def list_all_iff list_ex_iff
            dless_irrefl)
  qed
qed

lemma catInv_skip:
  assumes "catInv P f ps s" "\<not> P x"
  shows "catInv P f (ps @ [x]) s"
  using assms by (auto simp: catInv_def isEarliest_def list_all_iff list_ex_iff)

lemma catInv_empty: "catInv P f [] (dInfinity, [])"
  by (simp add: catInv_def isEarliest_def)


lemma scheduleTimers_step:
  assumes cls: "timerHasChangeAction c g (m_eventIds x) = Inr b"
  shows "scheduleTimers c g tLR tLC (x # rest) (tNR, rts, tNC, cts) =
     (if b then
        (case pick x (calcTimeOfNextTrigger x tLC) (tNC, cts) of (tNC', cts') \<Rightarrow>
           scheduleTimers c g tLR tLC rest (tNR, rts, tNC', cts'))
      else
        (case pick x (calcTimeOfNextTrigger x tLR) (tNR, rts) of (tNR', rts') \<Rightarrow>
           scheduleTimers c g tLR tLC rest (tNR', rts', tNC, cts)))"
  using cls by (simp add: pick_def Let_def)

lemma scheduleTimers_inv:
  assumes "scheduleTimers c g tLR tLC ts (tNR, rts, tNC, cts) = Inr (tNR', rts', tNC', cts')"
    and "\<forall>x\<in>set ts. nextTime c g tLR tLC x \<noteq> NaN"
    and "catInv (causesChange c g) (nextTime c g tLR tLC) ps (tNC, cts)"
    and "catInv (\<lambda>x. \<not> causesChange c g x) (nextTime c g tLR tLC) ps (tNR, rts)"
  shows "catInv (causesChange c g) (nextTime c g tLR tLC) (ps @ ts) (tNC', cts') \<and>
         catInv (\<lambda>x. \<not> causesChange c g x) (nextTime c g tLR tLC) (ps @ ts) (tNR', rts') \<and>
         (\<forall>x\<in>set ts. timerHasChangeAction c g (m_eventIds x) = Inr (causesChange c g x))"
  using assms
proof (induction ts arbitrary: ps tNR rts tNC cts)
  case Nil
  then show ?case by simp
next
  case (Cons x rest)
  let ?f = "nextTime c g tLR tLC"
  from Cons.prems(1) obtain b where cls: "timerHasChangeAction c g (m_eventIds x) = Inr b"
    by (cases "timerHasChangeAction c g (m_eventIds x)") auto
  then have b: "b = causesChange c g x"
    unfolding causesChange_def by (rule timerHasChangeAction_causesChange)
  from Cons.prems(2) have nn: "?f x \<noteq> NaN" and rest: "\<forall>y\<in>set rest. ?f y \<noteq> NaN" by auto
  show ?case
  proof (cases b)
    case True
    with b have fx: "?f x = calcTimeOfNextTrigger x tLC" by (simp add: nextTime_def)
    obtain tNC1 cts1 where p: "pick x (?f x) (tNC, cts) = (tNC1, cts1)"
      by (cases "pick x (?f x) (tNC, cts)")
    from Cons.prems(1) [unfolded scheduleTimers_step [OF cls]] True p fx
    have run: "scheduleTimers c g tLR tLC rest (tNR, rts, tNC1, cts1) = Inr (tNR', rts', tNC', cts')"
      by simp
    from catInv_pick [OF Cons.prems(3) _ nn] True b p
    have i1: "catInv (causesChange c g) ?f (ps @ [x]) (tNC1, cts1)" by simp
    from catInv_skip [OF Cons.prems(4)] True b
    have i2: "catInv (\<lambda>x. \<not> causesChange c g x) ?f (ps @ [x]) (tNR, rts)" by simp
    from Cons.IH [OF run rest i1 i2] cls b show ?thesis by simp
  next
    case False
    with b have fx: "?f x = calcTimeOfNextTrigger x tLR" by (simp add: nextTime_def)
    obtain tNR1 rts1 where p: "pick x (?f x) (tNR, rts) = (tNR1, rts1)"
      by (cases "pick x (?f x) (tNR, rts)")
    from Cons.prems(1) [unfolded scheduleTimers_step [OF cls]] False p fx
    have run: "scheduleTimers c g tLR tLC rest (tNR1, rts1, tNC, cts) = Inr (tNR', rts', tNC', cts')"
      by simp
    from catInv_pick [OF Cons.prems(4) _ nn] False b p
    have i2: "catInv (\<lambda>x. \<not> causesChange c g x) ?f (ps @ [x]) (tNR1, rts1)" by simp
    from catInv_skip [OF Cons.prems(3)] False b
    have i1: "catInv (causesChange c g) ?f (ps @ [x]) (tNC, cts)" by simp
    from Cons.IH [OF run rest i1 i2] cls b show ?thesis by simp
  qed
qed

lemma dless_dInfinity_right: "\<not> dless dInfinity y"
  by (cases y) auto

lemma catInvW_pick:
  assumes "catInvW P f ps s" "P x"
  shows "catInvW P f (ps @ [x]) (pick x (f x) s)"
proof -
  obtain best lst where s: "s = (best, lst)" by (cases s)
  from assms(1) s have b: "best \<noteq> NaN"
    and l: "\<forall>z\<in>set lst. P z \<and> (f z = best \<or> f z = NaN)"
    and lo: "\<forall>y\<in>set ps. P y \<longrightarrow> \<not> dless (f y) best"
    and al: "(\<forall>y\<in>set ps. P y \<longrightarrow> \<not> dless (f y) dInfinity) \<longrightarrow>
        best = dInfinity \<and> (\<forall>y\<in>set ps. P y \<and> f y = dInfinity \<longrightarrow> y \<in> set lst)"
    by (auto simp: catInvW_def)
  consider (gt) "dless best (f x)" | (lt) "dless (f x) best"
    | (eq) "\<not> dless best (f x)" "\<not> dless (f x) best"
    by blast
  then show ?thesis
  proof cases
    case gt
    then have "\<not> dless (f x) best" "f x \<noteq> dInfinity \<or> best \<noteq> dInfinity"
      using dless_asym dless_irrefl by (blast, metis)
    with gt s b l lo al show ?thesis
      by (auto simp: catInvW_def pick_def dgreater_def)
  next
    case lt
    then have n: "\<not> dless best (f x)" "f x \<noteq> NaN" "dless (f x) dInfinity"
      using dless_asym dless_NaN apply blast
      using lt dless_NaN apply blast
      using lt by (cases "f x"; cases best) auto
    have "\<forall>y\<in>set ps. P y \<longrightarrow> \<not> dless (f y) (f x)"
      using lo lt dless_trans by blast
    with lt n s assms(2) show ?thesis
      by (auto simp: catInvW_def pick_def dgreater_def dless_irrefl)
  next
    case eq
    have fx: "f x = best \<or> f x = NaN" using eq b dless_total by blast
    from eq s b l lo al assms(2) fx show ?thesis
      by (auto simp: catInvW_def pick_def dgreater_def)
  qed
qed

lemma catInvW_skip: "catInvW P f ps s \<Longrightarrow> \<not> P x \<Longrightarrow> catInvW P f (ps @ [x]) s"
  by (auto simp: catInvW_def)

lemma catInvW_empty: "catInvW P f [] (dInfinity, [])"
  by (simp add: catInvW_def)

lemma scheduleTimers_invW:
  assumes "scheduleTimers c g tLR tLC ts (tNR, rts, tNC, cts) = Inr (tNR', rts', tNC', cts')"
    and "catInvW (causesChange c g) (nextTime c g tLR tLC) ps (tNC, cts)"
    and "catInvW (\<lambda>x. \<not> causesChange c g x) (nextTime c g tLR tLC) ps (tNR, rts)"
  shows "catInvW (causesChange c g) (nextTime c g tLR tLC) (ps @ ts) (tNC', cts') \<and>
         catInvW (\<lambda>x. \<not> causesChange c g x) (nextTime c g tLR tLC) (ps @ ts) (tNR', rts')"
  using assms
proof (induction ts arbitrary: ps tNR rts tNC cts)
  case Nil
  then show ?case by simp
next
  case (Cons x rest)
  let ?f = "nextTime c g tLR tLC"
  from Cons.prems(1) obtain b where cls: "timerHasChangeAction c g (m_eventIds x) = Inr b"
    by (cases "timerHasChangeAction c g (m_eventIds x)") auto
  then have b: "b = causesChange c g x"
    unfolding causesChange_def by (rule timerHasChangeAction_causesChange)
  show ?case
  proof (cases b)
    case True
    with b have fx: "?f x = calcTimeOfNextTrigger x tLC" by (simp add: nextTime_def)
    obtain tNC1 cts1 where p: "pick x (?f x) (tNC, cts) = (tNC1, cts1)"
      by (cases "pick x (?f x) (tNC, cts)")
    from Cons.prems(1) [unfolded scheduleTimers_step [OF cls]] True p fx
    have run: "scheduleTimers c g tLR tLC rest (tNR, rts, tNC1, cts1) = Inr (tNR', rts', tNC', cts')"
      by simp
    from catInvW_pick [OF Cons.prems(2), where x = x] True b p
    have i1: "catInvW (causesChange c g) ?f (ps @ [x]) (tNC1, cts1)" by simp
    from catInvW_skip [OF Cons.prems(3), where x = x] True b
    have i2: "catInvW (\<lambda>x. \<not> causesChange c g x) ?f (ps @ [x]) (tNR, rts)" by simp
    from Cons.IH [OF run i1 i2] show ?thesis by simp
  next
    case False
    with b have fx: "?f x = calcTimeOfNextTrigger x tLR" by (simp add: nextTime_def)
    obtain tNR1 rts1 where p: "pick x (?f x) (tNR, rts) = (tNR1, rts1)"
      by (cases "pick x (?f x) (tNR, rts)")
    from Cons.prems(1) [unfolded scheduleTimers_step [OF cls]] False p fx
    have run: "scheduleTimers c g tLR tLC rest (tNR1, rts1, tNC, cts) = Inr (tNR', rts', tNC', cts')"
      by simp
    from catInvW_pick [OF Cons.prems(3), where x = x] False b p
    have i2: "catInvW (\<lambda>x. \<not> causesChange c g x) ?f (ps @ [x]) (tNR1, rts1)" by simp
    from catInvW_skip [OF Cons.prems(2), where x = x] False b
    have i1: "catInvW (causesChange c g) ?f (ps @ [x]) (tNC, cts)" by simp
    from Cons.IH [OF run i1 i2] show ?thesis by simp
  qed
qed

text \<open>
  C1, amended. For every call of \<^verbatim>\<open>findNextScheduledEventTimes\<close> that returns (every
  event id it looks up is in the registry) and in which no timer's next time is
  \<open>NaN\<close>: each timer is classified as a change-timer exactly when one of the events it
  causes has a change action; a change-timer's time is computed with the time of the last
  change and a report-timer's with the time of the last report; each returned time is the
  minimum of its category's times (\<open>+\<infinity>\<close> for an empty category); and each returned
  list holds exactly the timers of its category whose time equals the returned time, in
  the order of the timer array. The witness is scenario S4: three change-timers with the
  times 5, 5, 7 give the next change time 5 and the first two timers.
\<close>

theorem scheduler_groups_earliest:
  assumes "findNextScheduledEventTimes apiChecks g timeOfLastReport timeOfLastChange =
             Inr (timeOfNextReport, reportTimers, timeOfNextChange, changeTimers)"
    and "list_all (\<lambda>x. nextTime apiChecks g timeOfLastReport timeOfLastChange x \<noteq> NaN) (m_timers_cache g)"
  shows "list_all (\<lambda>x. timerHasChangeAction apiChecks g (m_eventIds x) = Inr (causesChange apiChecks g x))
           (m_timers_cache g) \<and>
         isEarliest (causesChange apiChecks g)
           (nextTime apiChecks g timeOfLastReport timeOfLastChange) (m_timers_cache g) timeOfNextChange \<and>
         isEarliest (\<lambda>x. \<not> causesChange apiChecks g x)
           (nextTime apiChecks g timeOfLastReport timeOfLastChange) (m_timers_cache g) timeOfNextReport \<and>
         changeTimers =
           filter (\<lambda>x. causesChange apiChecks g x \<and>
                       calcTimeOfNextTrigger x timeOfLastChange = timeOfNextChange) (m_timers_cache g) \<and>
         reportTimers =
           filter (\<lambda>x. \<not> causesChange apiChecks g x \<and>
                       calcTimeOfNextTrigger x timeOfLastReport = timeOfNextReport) (m_timers_cache g)"
proof -
  let ?f = "nextTime apiChecks g timeOfLastReport timeOfLastChange"
  from assms(2) have nn: "\<forall>x\<in>set (m_timers_cache g). ?f x \<noteq> NaN"
    by (simp add: list_all_iff)
  from scheduleTimers_inv [OF assms(1) [unfolded findNextScheduledEventTimes_def] nn
      catInv_empty catInv_empty]
  have c: "catInv (causesChange apiChecks g) ?f (m_timers_cache g) (timeOfNextChange, changeTimers)"
    and r: "catInv (\<lambda>x. \<not> causesChange apiChecks g x) ?f (m_timers_cache g) (timeOfNextReport, reportTimers)"
    and k: "\<forall>x\<in>set (m_timers_cache g).
              timerHasChangeAction apiChecks g (m_eventIds x) = Inr (causesChange apiChecks g x)"
    by simp_all
  have fc: "filter (\<lambda>x. causesChange apiChecks g x \<and> ?f x = timeOfNextChange) (m_timers_cache g) =
        filter (\<lambda>x. causesChange apiChecks g x \<and>
                       calcTimeOfNextTrigger x timeOfLastChange = timeOfNextChange) (m_timers_cache g)"
    by (rule filter_cong) (auto simp: nextTime_def)
  have fr: "filter (\<lambda>x. \<not> causesChange apiChecks g x \<and> ?f x = timeOfNextReport) (m_timers_cache g) =
        filter (\<lambda>x. \<not> causesChange apiChecks g x \<and>
                       calcTimeOfNextTrigger x timeOfLastReport = timeOfNextReport) (m_timers_cache g)"
    by (rule filter_cong) (auto simp: nextTime_def)
  from c r k fc fr show ?thesis
    by (simp add: catInv_def list_all_iff)
qed


theorem scheduler_groups_earliest_witness:
  "findNextScheduledEventTimes True
     \<lparr>m_events = [Some \<lparr>m_eventId = 0, m_actions = [ChangeAction (\<lambda>(st :: unit) trs r. (st, r))],
                         m_eventOccurrences = 0\<rparr>],
      m_triggers = [],
      m_timers_cache =
        [\<lparr>m_triggerId = 0, m_eventIds = [0], m_triggerOccurrences = 0, m_timerIndex = 0,
           calcTimeOfNextTrigger = (\<lambda>tLast. Finite 5)\<rparr>,
         \<lparr>m_triggerId = 1, m_eventIds = [0], m_triggerOccurrences = 0, m_timerIndex = 1,
           calcTimeOfNextTrigger = (\<lambda>tLast. Finite 5)\<rparr>,
         \<lparr>m_triggerId = 2, m_eventIds = [0], m_triggerOccurrences = 0, m_timerIndex = 2,
           calcTimeOfNextTrigger = (\<lambda>tLast. Finite 7)\<rparr>],
      m_witnesses_cache = []\<rparr> (Finite 0) (Finite 0) =
   Inr (dInfinity, [], Finite 5,
        [\<lparr>m_triggerId = 0, m_eventIds = [0], m_triggerOccurrences = 0, m_timerIndex = 0,
           calcTimeOfNextTrigger = (\<lambda>tLast. Finite 5)\<rparr>,
         \<lparr>m_triggerId = 1, m_eventIds = [0], m_triggerOccurrences = 0, m_timerIndex = 1,
           calcTimeOfNextTrigger = (\<lambda>tLast. Finite 5)\<rparr>])"
proof -
  let ?g = "\<lparr>m_events = [Some \<lparr>m_eventId = 0, m_actions = [ChangeAction (\<lambda>(st :: unit) trs r. (st, r))],
                         m_eventOccurrences = 0\<rparr>],
      m_triggers = [],
      m_timers_cache =
        [\<lparr>m_triggerId = 0, m_eventIds = [0], m_triggerOccurrences = 0, m_timerIndex = 0,
           calcTimeOfNextTrigger = (\<lambda>tLast. Finite 5)\<rparr>,
         \<lparr>m_triggerId = 1, m_eventIds = [0], m_triggerOccurrences = 0, m_timerIndex = 1,
           calcTimeOfNextTrigger = (\<lambda>tLast. Finite 5)\<rparr>,
         \<lparr>m_triggerId = 2, m_eventIds = [0], m_triggerOccurrences = 0, m_timerIndex = 2,
           calcTimeOfNextTrigger = (\<lambda>tLast. Finite 7)\<rparr>],
      m_witnesses_cache = []\<rparr>"
  let ?t1 = "\<lparr>m_triggerId = 0, m_eventIds = [0], m_triggerOccurrences = 0, m_timerIndex = 0,
           calcTimeOfNextTrigger = (\<lambda>tLast. Finite 5)\<rparr>"
  let ?t2 = "\<lparr>m_triggerId = 1, m_eventIds = [0], m_triggerOccurrences = 0, m_timerIndex = 1,
           calcTimeOfNextTrigger = (\<lambda>tLast. Finite 5)\<rparr>"
  have run: "findNextScheduledEventTimes True ?g (Finite 0) (Finite 0) =
       Inr (dInfinity, [], Finite 5, [?t1, ?t2])"
    by (simp add: scheduler_eval Let_def)
  have nn: "list_all (\<lambda>x. nextTime True ?g (Finite 0) (Finite 0) x \<noteq> NaN) (m_timers_cache ?g)"
    by (simp add: scheduler_eval)
  from scheduler_groups_earliest [OF run nn]
  have "[?t1, ?t2] =
          filter (\<lambda>x. causesChange True ?g x \<and> calcTimeOfNextTrigger x (Finite 0) = Finite 5)
            (m_timers_cache ?g)"
    by simp
  with run show ?thesis by simp
qed

text \<open>
  C1 as stated fails when a timer returns \<open>NaN\<close>: both comparisons are false, so the
  timer is put on the list although its time is not the returned time.
\<close>

theorem scheduler_nan_counterexample:
  "findNextScheduledEventTimes True
     ((newGuts :: unit Guts)\<lparr>m_timers_cache :=
        [\<lparr>m_triggerId = 0, m_eventIds = [], m_triggerOccurrences = 0, m_timerIndex = 0,
           calcTimeOfNextTrigger = (\<lambda>tLast. NaN)\<rparr>]\<rparr>) (Finite 0) (Finite 0) =
   Inr (dInfinity,
        [\<lparr>m_triggerId = 0, m_eventIds = [], m_triggerOccurrences = 0, m_timerIndex = 0,
           calcTimeOfNextTrigger = (\<lambda>tLast. NaN)\<rparr>],
        dInfinity, []) \<and>
   calcTimeOfNextTrigger
     \<lparr>m_triggerId = 0, m_eventIds = [], m_triggerOccurrences = 0, m_timerIndex = 0,
           calcTimeOfNextTrigger = (\<lambda>tLast. NaN)\<rparr> (Finite 0) \<noteq> dInfinity"
  by (simp add: scheduler_eval)

text \<open>
  C3, amended. In every call that returns, for a timer whose next time is \<open>+\<infinity>\<close>:
  when some timer of its own category (change or report) has a next time below
  \<open>+\<infinity>\<close>, the timer is on neither list and its category's returned time is below
  \<open>+\<infinity>\<close>; when no timer of its category has, the timer is on its own category's list
  (and not on the other), and its category's returned time is \<open>+\<infinity>\<close>.
\<close>

theorem infinite_timer_listing:
  assumes "findNextScheduledEventTimes apiChecks g timeOfLastReport timeOfLastChange =
             Inr (timeOfNextReport, reportTimers, timeOfNextChange, changeTimers)"
    and "x \<in> set (m_timers_cache g)"
    and "nextTime apiChecks g timeOfLastReport timeOfLastChange x = dInfinity"
  shows "(if list_ex (\<lambda>y. causesChange apiChecks g y = causesChange apiChecks g x \<and>
                          dless (nextTime apiChecks g timeOfLastReport timeOfLastChange y) dInfinity)
               (m_timers_cache g)
          then x \<notin> set reportTimers \<and> x \<notin> set changeTimers \<and>
               dless (if causesChange apiChecks g x then timeOfNextChange else timeOfNextReport)
                 dInfinity
          else if causesChange apiChecks g x
               then x \<in> set changeTimers \<and> x \<notin> set reportTimers \<and> timeOfNextChange = dInfinity
               else x \<in> set reportTimers \<and> x \<notin> set changeTimers \<and> timeOfNextReport = dInfinity)"
proof -
  let ?f = "nextTime apiChecks g timeOfLastReport timeOfLastChange"
  let ?C = "causesChange apiChecks g"
  let ?ts = "m_timers_cache g"
  from scheduleTimers_invW [OF assms(1) [unfolded findNextScheduledEventTimes_def]
      catInvW_empty catInvW_empty]
  have c: "catInvW ?C ?f ?ts (timeOfNextChange, changeTimers)"
    and r: "catInvW (\<lambda>x. \<not> ?C x) ?f ?ts (timeOfNextReport, reportTimers)"
    by simp_all
  have below: "x \<notin> set lst \<and> dless best dInfinity"
    if inv: "catInvW P ?f ?ts (best, lst)" and px: "P x"
      and ex: "\<exists>y\<in>set ?ts. P y \<and> dless (?f y) dInfinity" for P best lst
  proof -
    from ex obtain y where y: "y \<in> set ?ts" "P y" "dless (?f y) dInfinity" by blast
    with inv have nb: "\<not> dless (?f y) best" and nn: "best \<noteq> NaN" by (auto simp: catInvW_def)
    from nb y have ne: "best \<noteq> dInfinity" by auto
    with inv assms(3) have "x \<notin> set lst" by (auto simp: catInvW_def)
    moreover from nn ne have "dless best dInfinity" by (cases best) auto
    ultimately show ?thesis by simp
  qed
  have none: "x \<in> set lst \<and> best = dInfinity"
    if inv: "catInvW P ?f ?ts (best, lst)" and px: "P x"
      and nex: "\<not> (\<exists>y\<in>set ?ts. P y \<and> dless (?f y) dInfinity)" for P best lst
    using inv px nex assms(2,3) by (auto simp: catInvW_def)
  have other: "x \<notin> set lst" if inv: "catInvW P ?f ?ts (best, lst)" and px: "\<not> P x"
    for P best lst
    using inv px by (auto simp: catInvW_def)
  show ?thesis
  proof (cases "?C x")
    case True
    have eq: "list_ex (\<lambda>y. ?C y = ?C x \<and> dless (?f y) dInfinity) ?ts =
              (\<exists>y\<in>set ?ts. ?C y \<and> dless (?f y) dInfinity)"
      using True by (simp add: list_ex_iff)
    show ?thesis
    proof (cases "\<exists>y\<in>set ?ts. ?C y \<and> dless (?f y) dInfinity")
      case ex: True
      from below [OF c True ex] other [OF r] True eq ex show ?thesis by simp
    next
      case nex: False
      from none [OF c True nex] other [OF r] True eq nex show ?thesis by simp
    qed
  next
    case False
    have eq: "list_ex (\<lambda>y. ?C y = ?C x \<and> dless (?f y) dInfinity) ?ts =
              (\<exists>y\<in>set ?ts. \<not> ?C y \<and> dless (?f y) dInfinity)"
      using False by (simp add: list_ex_iff)
    show ?thesis
    proof (cases "\<exists>y\<in>set ?ts. \<not> ?C y \<and> dless (?f y) dInfinity")
      case ex: True
      from below [OF r False ex] other [OF c] False eq ex show ?thesis by simp
    next
      case nex: False
      from none [OF r False nex] other [OF c] False eq nex show ?thesis by simp
    qed
  qed
qed

theorem infinite_timer_listing_witness:
  "findNextScheduledEventTimes True
     ((newGuts :: unit Guts)\<lparr>m_timers_cache :=
        [\<lparr>m_triggerId = 0, m_eventIds = [], m_triggerOccurrences = 0, m_timerIndex = 0,
           calcTimeOfNextTrigger = (\<lambda>tLast. dInfinity)\<rparr>,
         \<lparr>m_triggerId = 1, m_eventIds = [], m_triggerOccurrences = 0, m_timerIndex = 1,
           calcTimeOfNextTrigger = (\<lambda>tLast. Finite 3)\<rparr>]\<rparr>) (Finite 0) (Finite 0) =
   Inr (Finite 3,
        [\<lparr>m_triggerId = 1, m_eventIds = [], m_triggerOccurrences = 0, m_timerIndex = 1,
           calcTimeOfNextTrigger = (\<lambda>tLast. Finite 3)\<rparr>],
        dInfinity, []) \<and>
   \<lparr>m_triggerId = 0, m_eventIds = [], m_triggerOccurrences = 0, m_timerIndex = 0,
           calcTimeOfNextTrigger = (\<lambda>tLast. dInfinity)\<rparr>
     \<notin> set [\<lparr>m_triggerId = 1, m_eventIds = [], m_triggerOccurrences = 0, m_timerIndex = 1,
           calcTimeOfNextTrigger = (\<lambda>tLast. Finite 3)\<rparr>] \<and>
   dless (Finite 3) dInfinity \<and>
   findNextScheduledEventTimes True
     ((newGuts :: unit Guts)\<lparr>m_timers_cache :=
        [\<lparr>m_triggerId = 0, m_eventIds = [], m_triggerOccurrences = 0, m_timerIndex = 0,
           calcTimeOfNextTrigger = (\<lambda>tLast. dInfinity)\<rparr>]\<rparr>) (Finite 0) (Finite 0) =
   Inr (dInfinity,
        [\<lparr>m_triggerId = 0, m_eventIds = [], m_triggerOccurrences = 0, m_timerIndex = 0,
           calcTimeOfNextTrigger = (\<lambda>tLast. dInfinity)\<rparr>],
        dInfinity, []) \<and>
   \<lparr>m_triggerId = 0, m_eventIds = [], m_triggerOccurrences = 0, m_timerIndex = 0,
           calcTimeOfNextTrigger = (\<lambda>tLast. dInfinity)\<rparr>
     \<in> set [\<lparr>m_triggerId = 0, m_eventIds = [], m_triggerOccurrences = 0, m_timerIndex = 0,
           calcTimeOfNextTrigger = (\<lambda>tLast. dInfinity)\<rparr>]"
proof -
  let ?x = "\<lparr>m_triggerId = 0, m_eventIds = [], m_triggerOccurrences = 0, m_timerIndex = 0,
           calcTimeOfNextTrigger = (\<lambda>tLast. dInfinity)\<rparr>"
  let ?y = "\<lparr>m_triggerId = 1, m_eventIds = [], m_triggerOccurrences = 0, m_timerIndex = 1,
           calcTimeOfNextTrigger = (\<lambda>tLast. Finite 3)\<rparr>"
  let ?g = "(newGuts :: unit Guts)\<lparr>m_timers_cache := [?x, ?y]\<rparr>"
  let ?h = "(newGuts :: unit Guts)\<lparr>m_timers_cache := [?x]\<rparr>"
  have run: "findNextScheduledEventTimes True ?g (Finite 0) (Finite 0) =
       Inr (Finite 3, [?y], dInfinity, [])"
    by (simp add: scheduler_eval)
  have mem: "?x \<in> set (m_timers_cache ?g)" by simp
  have inf: "nextTime True ?g (Finite 0) (Finite 0) ?x = dInfinity"
    by (simp add: scheduler_eval)
  from infinite_timer_listing [OF run mem inf]
  have a: "?x \<notin> set [?y] \<and> dless (Finite 3) dInfinity"
    by (simp add: scheduler_eval)
  have run2: "findNextScheduledEventTimes True ?h (Finite 0) (Finite 0) =
       Inr (dInfinity, [?x], dInfinity, [])"
    by (simp add: scheduler_eval)
  have mem2: "?x \<in> set (m_timers_cache ?h)" by simp
  have inf2: "nextTime True ?h (Finite 0) (Finite 0) ?x = dInfinity"
    by (simp add: scheduler_eval)
  from infinite_timer_listing [OF run2 mem2 inf2]
  have b: "?x \<in> set [?x]"
    by (simp add: scheduler_eval)
  from run a run2 b show ?thesis by simp
qed

text \<open>
  C3 as stated fails: the best time starts at \<open>+\<infinity>\<close> and a timer is skipped only
  when its time is greater, so a single timer that returns \<open>+\<infinity>\<close> is listed.
\<close>

theorem infinite_timer_counterexample:
  "findNextScheduledEventTimes True
     ((newGuts :: unit Guts)\<lparr>m_timers_cache :=
        [\<lparr>m_triggerId = 0, m_eventIds = [], m_triggerOccurrences = 0, m_timerIndex = 0,
           calcTimeOfNextTrigger = (\<lambda>tLast. dInfinity)\<rparr>]\<rparr>) (Finite 0) (Finite 0) =
   Inr (dInfinity,
        [\<lparr>m_triggerId = 0, m_eventIds = [], m_triggerOccurrences = 0, m_timerIndex = 0,
           calcTimeOfNextTrigger = (\<lambda>tLast. dInfinity)\<rparr>],
        dInfinity, []) \<and>
   calcTimeOfNextTrigger
     \<lparr>m_triggerId = 0, m_eventIds = [], m_triggerOccurrences = 0, m_timerIndex = 0,
           calcTimeOfNextTrigger = (\<lambda>tLast. dInfinity)\<rparr> (Finite 0) = dInfinity"
  by (simp add: scheduler_eval)

section \<open>Properties of the occurrence resolver\<close>

lemmas resolver_eval =
  claimsOf_def causesOf_def recognized_def firstSeen_def newEvents_def newIgnored_def bumped_def
  isIndexInRange_def getNumEvents_def isValid_def

lemma find_if_le: "find_if P xs \<le> length xs"
  by (induction xs) auto

lemma find_if_end: "(find_if P xs = length xs) = (\<not> (\<exists>x\<in>set xs. P x))"
  using find_if_le [of P] by (induction xs) (auto simp: Suc_le_eq)

lemma find_if_found: "find_if P xs < length xs \<Longrightarrow> P (xs ! find_if P xs)"
  by (induction xs) (auto split: if_splits)

lemma find_if_first: "i < find_if P xs \<Longrightarrow> \<not> P (xs ! i)"
proof (induction xs arbitrary: i)
  case Nil
  then show ?case by simp
next
  case (Cons x xs)
  then show ?case by (cases i) (auto split: if_splits)
qed

lemma hasEvent_recognized:
  "hasEvent c g e = Inr b \<Longrightarrow> b = recognized g e"
  by (auto simp: hasEvent_def recognized_def split: if_splits)

lemma noteEvent_pure:
  assumes "noteEvent c t e s = Inr s'"
  shows "s' = pureStep recognized s (t, e)"
proof -
  obtain g te ig where s: "s = (g, te, ig)" by (cases s)
  from assms s obtain b where hb: "hasEvent c g e = Inr b"
    by (cases "hasEvent c g e") (auto simp: noteEvent_def)
  note r = hasEvent_recognized [OF hb]
  show ?thesis
  proof (cases "recognized g e")
    case False
    with r hb assms s show ?thesis
      by (auto simp: noteEvent_def pureStep_def find_if_end split: if_splits)
  next
    case True
    with r hb have hb': "hasEvent c g e = Inr True" by simp
    from assms s hb' obtain ev where ge: "getEvent c g e = Inr ev"
      by (cases "getEvent c g e") (auto simp: noteEvent_def)
    from assms s hb' ge True show ?thesis
      by (auto simp: noteEvent_def pureStep_def find_if_end Let_def split: if_splits)
  qed
qed

lemma noteEvents_pure:
  "noteEvents c t eids s = Inr s' \<Longrightarrow>
   s' = foldl (pureStep recognized) s (map (Pair t) eids)"
proof (induction eids arbitrary: s)
  case Nil
  then show ?case by simp
next
  case (Cons e eids)
  from Cons.prems obtain s1 where s1: "noteEvent c t e s = Inr s1"
    and rest: "noteEvents c t eids s1 = Inr s'"
    by (cases "noteEvent c t e s") auto
  from noteEvent_pure [OF s1] Cons.IH [OF rest] show ?case by simp
qed

lemma eventIds_noteTriggerOccurrence [simp]:
  "m_eventIds (noteTriggerOccurrence t store u) = m_eventIds (store u)"
  by (simp add: noteTriggerOccurrence_def)

lemma claimsOf_noteTriggerOccurrence [simp]:
  "claimsOf (noteTriggerOccurrence t store) ts = claimsOf store ts"
  by (simp add: claimsOf_def)

lemma noteTriggers_pure:
  "noteTriggers c ts (store, s) = Inr (store', s') \<Longrightarrow>
   s' = foldl (pureStep recognized) s (claimsOf store ts) \<and>
   store' = foldl (\<lambda>st t. noteTriggerOccurrence t st) store ts"
proof (induction ts arbitrary: store s)
  case Nil
  then show ?case by (simp add: claimsOf_def)
next
  case (Cons t ts)
  let ?st = "noteTriggerOccurrence t store"
  from Cons.prems obtain s1 where s1: "noteEvents c t (m_eventIds (store t)) s = Inr s1"
    and rest: "noteTriggers c ts (?st, s1) = Inr (store', s')"
    by (cases "noteEvents c t (m_eventIds (store t)) s") (auto simp: Let_def)
  from noteEvents_pure [OF s1] Cons.IH [OF rest] show ?case
    by (simp add: claimsOf_def)
qed



lemma firstSeen_snoc:
  "firstSeen (xs @ [x]) = (if x \<in> set xs then firstSeen xs else firstSeen xs @ [x])"
  by (simp add: firstSeen_def)

lemma set_firstSeen [simp]: "set (firstSeen xs) = set xs"
  by (simp add: firstSeen_def)

lemma distinct_firstSeen [simp]: "distinct (firstSeen xs)"
  by (simp add: firstSeen_def)

lemma firstSeen_Nil [simp]: "firstSeen [] = []"
  by (simp add: firstSeen_def)

lemma length_bumped [simp]: "length (bumped n es) = length es"
  by (simp add: bumped_def)

lemma nth_bumped:
  "k < length es \<Longrightarrow>
   bumped n es ! k =
     (if int k \<in> set n
      then map_option (\<lambda>e. e\<lparr>m_eventOccurrences := m_eventOccurrences e + 1\<rparr>) (es ! k)
      else es ! k)"
  by (simp add: bumped_def)

lemma bumped_Nil [simp]: "bumped [] es = es"
  by (rule nth_equalityI) (simp_all add: nth_bumped)

lemma recognized_bumped [simp]:
  "recognized (g\<lparr>m_events := bumped n (m_events g)\<rparr>) e = recognized g e"
  by (auto simp: recognized_def getNumEvents_def isIndexInRange_def nth_bumped split: if_splits)

lemma bumped_snoc:
  assumes "e \<notin> set n" "0 \<le> e" "nat e < length es"
  shows "bumped (n @ [e]) es =
     (bumped n es)[nat e :=
        map_option (\<lambda>ev. ev\<lparr>m_eventOccurrences := m_eventOccurrences ev + 1\<rparr>) (bumped n es ! nat e)]"
proof (rule nth_equalityI)
  show "length (bumped (n @ [e]) es) = length ((bumped n es)[nat e :=
        map_option (\<lambda>ev. ev\<lparr>m_eventOccurrences := m_eventOccurrences ev + 1\<rparr>) (bumped n es ! nat e)])"
    by simp
next
  fix k assume "k < length (bumped (n @ [e]) es)"
  then have k: "k < length es" by simp
  show "bumped (n @ [e]) es ! k = (bumped n es)[nat e :=
        map_option (\<lambda>ev. ev\<lparr>m_eventOccurrences := m_eventOccurrences ev + 1\<rparr>) (bumped n es ! nat e)] ! k"
  proof (cases "k = nat e")
    case True
    with assms k show ?thesis by (simp add: nth_bumped)
  next
    case False
    with assms(2) have "int k \<noteq> e" by auto
    with False k show ?thesis by (simp add: nth_bumped)
  qed
qed

lemma noteEventOccurred_bumped:
  assumes "recognized g0 e" "e \<notin> set n"
  shows "noteEventOccurred e (g0\<lparr>m_events := bumped n (m_events g0)\<rparr>) =
         g0\<lparr>m_events := bumped (n @ [e]) (m_events g0)\<rparr>"
proof -
  from assms(1) have "0 \<le> e" "nat e < length (m_events g0)"
    by (auto simp: recognized_def isIndexInRange_def getNumEvents_def)
  from bumped_snoc [OF assms(2) this] show ?thesis
    by (simp add: noteEventOccurred_def)
qed

lemma find_if_map: "find_if (\<lambda>x. P (f x)) xs = find_if P (map f xs)"
  by (induction xs) auto

lemma find_if_append:
  "find_if P (xs @ ys) =
     (if find_if P xs < length xs then find_if P xs else length xs + find_if P ys)"
  using find_if_le [of P] by (induction xs) (auto simp: Suc_le_eq)

lemma find_if_lt: "x \<in> set xs \<Longrightarrow> P x \<Longrightarrow> find_if P xs < length xs"
  using find_if_le [of P xs] find_if_end [of P xs] by (auto simp: le_less)

lemma causesOf_snoc:
  "causesOf (claims @ [(t, e)]) k = (if k = e then causesOf claims k @ [t] else causesOf claims k)"
  by (simp add: causesOf_def)

lemma causesOf_none: "k \<notin> snd ` set claims \<Longrightarrow> causesOf claims k = []"
  by (auto simp: causesOf_def filter_empty_conv)


lemma resInv_step:
  assumes inv: "resInv g0 te0 ig0 claims s"
  shows "resInv g0 te0 ig0 (claims @ [(t, e)]) (pureStep recognized s (t, e))"
proof -
  obtain g te ig where s: "s = (g, te, ig)" by (cases s)
  let ?N = "newEvents g0 te0 claims"
  let ?K = "map fst te"
  from inv s have g: "g = g0\<lparr>m_events := bumped ?N (m_events g0)\<rparr>"
    and K: "?K = map fst te0 @ ?N"
    and C: "causesInv g0 te0 claims te"
    and I: "ig = ig0 @ newIgnored g0 ig0 claims"
    by (auto simp: resInv_def)
  from g have R: "recognized g e = recognized g0 e" by simp
  have len: "length te = length te0 + length ?N"
    using K by (metis length_append length_map)
  have setN: "set ?N = {k \<in> snd ` set claims. recognized g0 k \<and> k \<notin> set (map fst te0)}"
    by (auto simp: newEvents_def)
  show ?thesis
  proof (cases "recognized g0 e")
    case False
    have N': "newEvents g0 te0 (claims @ [(t, e)]) = ?N"
      using False by (simp add: newEvents_def)
    have I': "(if e \<in> set ig then ig else ig @ [e]) = ig0 @ newIgnored g0 ig0 (claims @ [(t, e)])"
      using False I by (auto simp: newIgnored_def firstSeen_snoc)
    have C': "causesInv g0 te0 (claims @ [(t, e)]) te"
      using C False by (auto simp: causesInv_def causesOf_snoc)
    have ps: "pureStep recognized s (t, e) = (g, te, if e \<in> set ig then ig else ig @ [e])"
      using False R s by (simp add: pureStep_def)
    show ?thesis
      unfolding ps resInv_def using g K N' I' C' by simp
  next
    case True
    show ?thesis
    proof (cases "e \<in> set ?K")
      case notin: False
      then have e0: "e \<notin> set (map fst te0)" and eN: "e \<notin> set ?N" using K by auto
      from eN e0 True have noclaim: "e \<notin> snd ` set claims" using setN by auto
      have N': "newEvents g0 te0 (claims @ [(t, e)]) = ?N @ [e]"
        using True e0 noclaim by (auto simp: newEvents_def firstSeen_snoc)
      have I': "newIgnored g0 ig0 (claims @ [(t, e)]) = newIgnored g0 ig0 claims"
        using True by (simp add: newIgnored_def)
      have g': "noteEventOccurred e g = g0\<lparr>m_events := bumped (?N @ [e]) (m_events g0)\<rparr>"
        unfolding g using True eN by (rule noteEventOccurred_bumped)
      have C': "causesInv g0 te0 (claims @ [(t, e)]) (te @ [(e, [t])])"
        unfolding causesInv_def
      proof (intro allI impI)
        fix i assume i: "i < length (te @ [(e, [t])])"
        show "snd ((te @ [(e, [t])]) ! i) =
          (if i < length te0 then snd (te0 ! i) else []) @
          (if i = find_if (\<lambda>k. k = fst ((te @ [(e, [t])]) ! i)) (map fst (te @ [(e, [t])])) \<and>
              recognized g0 (fst ((te @ [(e, [t])]) ! i))
           then causesOf (claims @ [(t, e)]) (fst ((te @ [(e, [t])]) ! i)) else [])"
        proof (cases "i < length te")
          case lt: True
          then have ki: "fst (te ! i) \<in> set ?K" by (metis length_map nth_map nth_mem)
          with notin have ne: "fst (te ! i) \<noteq> e" by auto
          from ki have fl: "find_if (\<lambda>k. k = fst (te ! i)) ?K < length ?K"
            by (rule find_if_lt) simp
          from C lt have "snd (te ! i) =
              (if i < length te0 then snd (te0 ! i) else []) @
              (if i = find_if (\<lambda>k. k = fst (te ! i)) ?K \<and> recognized g0 (fst (te ! i))
               then causesOf claims (fst (te ! i)) else [])"
            by (simp add: causesInv_def)
          with lt ne fl show ?thesis
            by (simp add: nth_append find_if_append causesOf_snoc)
        next
          case ge: False
          with i have ie: "i = length te" by simp
          have "find_if (\<lambda>k. k = e) ?K = length ?K"
            unfolding find_if_end using notin by blast
          then have fe: "find_if (\<lambda>k. k = e) (map fst te) = length te" by simp
          from ie len have nl: "\<not> i < length te0" by simp
          from ie fe nl True noclaim show ?thesis
            by (simp add: nth_append find_if_append causesOf_snoc causesOf_none)
        qed
      qed
      have ps: "pureStep recognized s (t, e) = (noteEventOccurred e g, te @ [(e, [t])], ig)"
        using True R notin s by (simp add: pureStep_def)
      show ?thesis
        unfolding ps resInv_def using K N' I' I g' C' by simp
    next
      case isin: True
      let ?j = "find_if (\<lambda>et. fst et = e) te"
      have jK: "?j = find_if (\<lambda>k. k = e) ?K" by (rule find_if_map)
      from isin have jl: "?j < length te"
        unfolding jK using find_if_lt [of e ?K "\<lambda>k. k = e"] by simp
      have kj: "fst (te ! ?j) = e"
        using find_if_found [of "\<lambda>et. fst et = e" te] jl by simp
      let ?te' = "te[?j := (fst (te ! ?j), snd (te ! ?j) @ [t])]"
      have K': "map fst ?te' = ?K"
      proof (rule nth_equalityI)
        show "length (map fst ?te') = length ?K" by simp
      next
        fix i assume "i < length (map fst ?te')"
        then have "i < length te" by simp
        then show "map fst ?te' ! i = ?K ! i"
          by (cases "i = ?j") (simp_all add: nth_list_update)
      qed
      have N': "newEvents g0 te0 (claims @ [(t, e)]) = ?N"
      proof (cases "e \<in> set (map fst te0)")
        case True
        then show ?thesis by (simp add: newEvents_def)
      next
        case False
        with isin K have "e \<in> set ?N" by auto
        then have "e \<in> set (filter (\<lambda>e. recognized g0 e \<and> e \<notin> set (map fst te0)) (map snd claims))"
          by (simp add: newEvents_def)
        then show ?thesis by (simp add: newEvents_def firstSeen_snoc)
      qed
      have I': "newIgnored g0 ig0 (claims @ [(t, e)]) = newIgnored g0 ig0 claims"
        using True by (simp add: newIgnored_def)
      have C': "causesInv g0 te0 (claims @ [(t, e)]) ?te'"
        unfolding causesInv_def K'
      proof (intro allI impI)
        fix i assume "i < length ?te'"
        then have i: "i < length te" by simp
        from C i have ci: "snd (te ! i) =
              (if i < length te0 then snd (te0 ! i) else []) @
              (if i = find_if (\<lambda>k. k = fst (te ! i)) ?K \<and> recognized g0 (fst (te ! i))
               then causesOf claims (fst (te ! i)) else [])"
          by (simp add: causesInv_def)
        have fi: "fst (?te' ! i) = fst (te ! i)"
          using i by (cases "i = ?j") (simp_all add: nth_list_update)
        show "snd (?te' ! i) =
          (if i < length te0 then snd (te0 ! i) else []) @
          (if i = find_if (\<lambda>k. k = fst (?te' ! i)) ?K \<and> recognized g0 (fst (?te' ! i))
           then causesOf (claims @ [(t, e)]) (fst (?te' ! i)) else [])"
        proof (cases "i = ?j")
          case eq: True
          with ci kj jK True i show ?thesis
            unfolding fi by (simp add: causesOf_snoc)
        next
          case ne: False
          with ci kj jK i show ?thesis
            unfolding fi by (auto simp: causesOf_snoc nth_list_update)
        qed
      qed
      have ps: "pureStep recognized s (t, e) = (g, ?te', ig)"
        using True R isin s by (simp add: pureStep_def)
      show ?thesis
        unfolding ps resInv_def using g K K' N' I' I C' by simp
    qed
  qed
qed

lemma resInv_init: "resInv g0 te0 ig0 [] (g0, te0, ig0)"
proof -
  have "causesInv g0 te0 [] te0"
    by (simp add: causesInv_def causesOf_def)
  then show ?thesis
    by (simp add: resInv_def newEvents_def newIgnored_def)
qed

lemma resInv_foldl: "resInv g0 te0 ig0 claims (foldl (pureStep recognized) (g0, te0, ig0) claims)"
proof (induction claims rule: rev_induct)
  case Nil
  show ?case by (simp add: resInv_init)
next
  case (snoc c claims)
  obtain t e where c: "c = (t, e)" by (cases c)
  from resInv_step [OF snoc.IH, of t e] show ?case by (simp add: c)
qed


lemma find_if_distinct:
  "distinct ys \<Longrightarrow> j < length ys \<Longrightarrow> find_if (\<lambda>k. k = ys ! j) ys = j"
proof (induction ys arbitrary: j)
  case Nil
  then show ?case by simp
next
  case (Cons y ys)
  then show ?case by (cases j) auto
qed

lemma noteEventOccurrence_resInv:
  assumes "noteEventOccurrence c triggers store g te0 ig0 = Inr (store', g', te, ig)"
  shows "resInv g te0 ig0 (claimsOf store triggers) (g', te, ig)"
    and "store' = foldl (\<lambda>st t. noteTriggerOccurrence t st) store triggers"
  using noteTriggers_pure [OF assms [unfolded noteEventOccurrence_def]]
    resInv_foldl [of g te0 ig0 "claimsOf store triggers"]
  by simp_all

lemma resInv_old:
  assumes "resInv g0 te0 ig0 claims (g, te, ig)" "i < length te0"
  shows "fst (te ! i) = fst (te0 ! i) \<and>
         snd (te ! i) = snd (te0 ! i) @
           (if i = find_if (\<lambda>et. fst et = fst (te0 ! i)) te0 \<and> recognized g0 (fst (te0 ! i))
            then causesOf claims (fst (te0 ! i)) else [])"
proof -
  let ?N = "newEvents g0 te0 claims"
  from assms(1) have K: "map fst te = map fst te0 @ ?N" and C: "causesInv g0 te0 claims te"
    by (auto simp: resInv_def)
  from K have len: "length te = length te0 + length ?N" by (metis length_append length_map)
  with assms(2) have i: "i < length te" by simp
  have "fst (te ! i) = map fst te ! i" using i by simp
  also have "\<dots> = fst (te0 ! i)" using assms(2) by (simp add: K nth_append)
  finally have k: "fst (te ! i) = fst (te0 ! i)" .
  have "fst (te0 ! i) \<in> set (map fst te0)" using assms(2) by (metis length_map nth_map nth_mem)
  then have "find_if (\<lambda>k. k = fst (te0 ! i)) (map fst te0) < length (map fst te0)"
    by (rule find_if_lt) simp
  then have f: "find_if (\<lambda>k. k = fst (te0 ! i)) (map fst te) =
                find_if (\<lambda>et. fst et = fst (te0 ! i)) te0"
    by (simp add: K find_if_append find_if_map [of "\<lambda>k. k = fst (te0 ! i)" fst te0])
  from C i have "snd (te ! i) =
          (if i < length te0 then snd (te0 ! i) else []) @
          (if i = find_if (\<lambda>k. k = fst (te ! i)) (map fst te) \<and> recognized g0 (fst (te ! i))
           then causesOf claims (fst (te ! i)) else [])"
    by (simp add: causesInv_def)
  with k f assms(2) show ?thesis by simp
qed

lemma resInv_new:
  assumes "resInv g0 te0 ig0 claims (g, te, ig)"
  shows "drop (length te0) te = map (\<lambda>e. (e, causesOf claims e)) (newEvents g0 te0 claims)"
proof (rule nth_equalityI)
  let ?N = "newEvents g0 te0 claims"
  from assms(1) have K: "map fst te = map fst te0 @ ?N" and C: "causesInv g0 te0 claims te"
    by (auto simp: resInv_def)
  from K have len: "length te = length te0 + length ?N" by (metis length_append length_map)
  then show "length (drop (length te0) te) = length (map (\<lambda>e. (e, causesOf claims e)) ?N)"
    by simp
  fix j assume "j < length (drop (length te0) te)"
  with len have j: "j < length ?N" by simp
  let ?i = "length te0 + j"
  from j len have i: "?i < length te" by simp
  have "fst (te ! ?i) = map fst te ! ?i" using i by simp
  also have "\<dots> = ?N ! j" by (simp add: K nth_append)
  finally have k: "fst (te ! ?i) = ?N ! j" .
  have Nj: "?N ! j \<in> set ?N" using j by simp
  then have rec: "recognized g0 (?N ! j)" and notold: "?N ! j \<notin> set (map fst te0)"
    by (auto simp: newEvents_def)
  have "find_if (\<lambda>k. k = ?N ! j) (map fst te0) = length (map fst te0)"
    unfolding find_if_end using notold by blast
  moreover have "find_if (\<lambda>k. k = ?N ! j) ?N = j"
  proof (rule find_if_distinct)
    show "distinct ?N" by (simp add: newEvents_def)
    show "j < length ?N" by (rule j)
  qed
  ultimately have f: "find_if (\<lambda>k. k = ?N ! j) (map fst te) = ?i"
    by (simp add: K find_if_append)
  from C i have "snd (te ! ?i) =
          (if ?i < length te0 then snd (te0 ! ?i) else []) @
          (if ?i = find_if (\<lambda>k. k = fst (te ! ?i)) (map fst te) \<and> recognized g0 (fst (te ! ?i))
           then causesOf claims (fst (te ! ?i)) else [])"
    unfolding causesInv_def by blast
  with k f rec have "snd (te ! ?i) = causesOf claims (?N ! j)" by simp
  with k have "te ! ?i = (?N ! j, causesOf claims (?N ! j))" by (metis prod.collapse)
  with j i show "drop (length te0) te ! j = map (\<lambda>e. (e, causesOf claims e)) ?N ! j"
    by simp
qed



lemma noteEvent_total:
  assumes "c \<longrightarrow> isValid e"
  shows "\<exists>s'. noteEvent c t e s = Inr s'"
proof -
  obtain g te ig where s: "s = (g, te, ig)" by (cases s)
  from assms have h: "hasEvent c g e = Inr (recognized g e)"
    by (auto simp: hasEvent_def recognized_def)
  show ?thesis
  proof (cases "recognized g e")
    case False
    with h s show ?thesis by (simp add: noteEvent_def)
  next
    case True
    with assms obtain ev where "getEvent c g e = Inr ev"
      by (auto simp: getEvent_def recognized_def)
    with h s True show ?thesis by (simp add: noteEvent_def Let_def)
  qed
qed

lemma noteEvents_total:
  "c \<longrightarrow> list_all isValid eids \<Longrightarrow> \<exists>s'. noteEvents c t eids s = Inr s'"
proof (induction eids arbitrary: s)
  case Nil
  show ?case by (simp del: split_paired_Ex)
next
  case (Cons e eids)
  then have "c \<longrightarrow> isValid e" and rest: "c \<longrightarrow> list_all isValid eids" by auto
  from noteEvent_total [OF this(1)] obtain s1 where "noteEvent c t e s = Inr s1" by blast
  with Cons.IH [OF rest, of s1] show ?case by simp
qed

lemma noteTriggers_total:
  "c \<longrightarrow> list_all isValid (map snd (claimsOf store ts)) \<Longrightarrow>
   \<exists>r. noteTriggers c ts (store, s) = Inr r"
proof (induction ts arbitrary: store s)
  case Nil
  show ?case by (simp del: split_paired_Ex)
next
  case (Cons t ts)
  let ?st = "noteTriggerOccurrence t store"
  from Cons.prems have here: "c \<longrightarrow> list_all isValid (m_eventIds (store t))"
    and rest: "c \<longrightarrow> list_all isValid (map snd (claimsOf ?st ts))"
    by (auto simp: claimsOf_def list_all_iff)
  from noteEvents_total [OF here] obtain s1 where
    "noteEvents c t (m_eventIds (store t)) s = Inr s1" by blast
  with Cons.IH [OF rest, of s1] show ?case by (simp add: Let_def)
qed




text \<open>
  C10. \<^verbatim>\<open>noteEventOccurrence\<close> appends to the arrays it is given. In every call
  that returns: the ignored ids given stay in front, followed by the new unrecognized ids
  that were not among them; the entries given stay in place with their events; the first
  entry for a recognized event gets the triggers that claim it appended to its causes,
  and every other entry given is unchanged; the new entries follow, one for each
  recognized claimed event that had no entry, and only these events have their counter
  raised. The call returns under the same condition as above.
\<close>

theorem noteEventOccurrence_appends:
  "(noteEventOccurrence apiChecks triggers store g te0 ig0 = Inr (store', g', te, ig) \<longrightarrow>
      ig = ig0 @ newIgnored g ig0 (claimsOf store triggers) \<and>
      map fst te = map fst te0 @ newEvents g te0 (claimsOf store triggers) \<and>
      (\<forall>i<length te0.
         snd (te ! i) = snd (te0 ! i) @
           (if i = find_if (\<lambda>et. fst et = fst (te0 ! i)) te0 \<and> recognized g (fst (te0 ! i))
            then causesOf (claimsOf store triggers) (fst (te0 ! i)) else [])) \<and>
      drop (length te0) te =
        map (\<lambda>e. (e, causesOf (claimsOf store triggers) e))
          (newEvents g te0 (claimsOf store triggers)) \<and>
      g' = g\<lparr>m_events := bumped (newEvents g te0 (claimsOf store triggers)) (m_events g)\<rparr>) \<and>
   ((apiChecks \<longrightarrow> list_all isValid (map snd (claimsOf store triggers))) \<longrightarrow>
      (\<exists>r. noteEventOccurrence apiChecks triggers store g te0 ig0 = Inr r))"
proof -
  let ?cl = "claimsOf store triggers"
  have returns: "\<exists>r. noteEventOccurrence apiChecks triggers store g te0 ig0 = Inr r"
    if "apiChecks \<longrightarrow> list_all isValid (map snd ?cl)"
    using noteTriggers_total [OF that, of "(g, te0, ig0)"]
    by (simp add: noteEventOccurrence_def)
  have result: "ig = ig0 @ newIgnored g ig0 ?cl \<and>
      map fst te = map fst te0 @ newEvents g te0 ?cl \<and>
      (\<forall>i<length te0.
         snd (te ! i) = snd (te0 ! i) @
           (if i = find_if (\<lambda>et. fst et = fst (te0 ! i)) te0 \<and> recognized g (fst (te0 ! i))
            then causesOf ?cl (fst (te0 ! i)) else [])) \<and>
      drop (length te0) te = map (\<lambda>e. (e, causesOf ?cl e)) (newEvents g te0 ?cl) \<and>
      g' = g\<lparr>m_events := bumped (newEvents g te0 ?cl) (m_events g)\<rparr>"
    if run: "noteEventOccurrence apiChecks triggers store g te0 ig0 = Inr (store', g', te, ig)"
  proof -
    note inv = noteEventOccurrence_resInv(1) [OF run]
    from inv have a: "ig = ig0 @ newIgnored g ig0 ?cl"
      and b: "map fst te = map fst te0 @ newEvents g te0 ?cl"
      and e: "g' = g\<lparr>m_events := bumped (newEvents g te0 ?cl) (m_events g)\<rparr>"
      by (simp_all add: resInv_def)
    from resInv_old [OF inv]
    have c: "\<forall>i<length te0.
        snd (te ! i) = snd (te0 ! i) @
          (if i = find_if (\<lambda>et. fst et = fst (te0 ! i)) te0 \<and> recognized g (fst (te0 ! i))
           then causesOf ?cl (fst (te0 ! i)) else [])"
      by blast
    note d = resInv_new [OF inv]
    from a b c d e show ?thesis by blast
  qed
  show ?thesis
    by (rule conjI) (rule impI, erule result, rule impI, erule returns)
qed

theorem noteEventOccurrence_appends_witness:
  "(case noteEventOccurrence True [1, 2]
          (\<lambda>a. \<lparr>m_triggerId = int a, m_eventIds = (if a = 1 then [0, 9] else if a = 2 then [1, 7] else []),
                 m_triggerOccurrences = 0\<rparr>)
          \<lparr>m_events = [Some \<lparr>m_eventId = 0, m_actions = ([ReportAction] :: unit EventAction list),
                              m_eventOccurrences = 5\<rparr>,
                        Some \<lparr>m_eventId = 1, m_actions = [], m_eventOccurrences = 0\<rparr>],
           m_triggers = [], m_timers_cache = [], m_witnesses_cache = []\<rparr>
          [(0, [4])] [9]
    of Inl err \<Rightarrow> False
     | Inr (store', g', te, ig) \<Rightarrow>
         te = [(0, [4, 1]), (1, [2])] \<and> ig = [9, 7] \<and>
         m_events g' = [Some \<lparr>m_eventId = 0, m_actions = [ReportAction], m_eventOccurrences = 5\<rparr>,
                        Some \<lparr>m_eventId = 1, m_actions = [], m_eventOccurrences = 1\<rparr>])"
proof -
  let ?store = "\<lambda>a. \<lparr>m_triggerId = int a,
      m_eventIds = (if a = 1 then [0, 9] else if a = 2 then [1, 7] else []), m_triggerOccurrences = 0\<rparr>"
  let ?g = "\<lparr>m_events = [Some \<lparr>m_eventId = 0, m_actions = ([ReportAction] :: unit EventAction list),
                              m_eventOccurrences = 5\<rparr>,
                        Some \<lparr>m_eventId = 1, m_actions = [], m_eventOccurrences = 0\<rparr>],
           m_triggers = [], m_timers_cache = [], m_witnesses_cache = []\<rparr>"
  let ?cl = "claimsOf ?store [1, 2]"
  let ?te0 = "[(0 :: int, [4 :: nat])]"
  have v: "True \<longrightarrow> list_all isValid (map snd ?cl)"
    by (simp add: resolver_eval)
  from noteEventOccurrence_appends [THEN conjunct2, of True ?store "[1, 2]" ?g ?te0 "[9]"] v
  obtain store' g' te ig where
    run: "noteEventOccurrence True [1, 2] ?store ?g ?te0 [9] = Inr (store', g', te, ig)"
    by (metis prod_cases4)
  from noteEventOccurrence_appends [THEN conjunct1, of True "[1, 2]" ?store ?g ?te0 "[9]" store' g' te ig]
    run
  have ig: "ig = [9] @ newIgnored ?g [9] ?cl"
    and keys: "map fst te = map fst ?te0 @ newEvents ?g ?te0 ?cl"
    and old: "\<forall>i<length ?te0.
        snd (te ! i) = snd (?te0 ! i) @
          (if i = find_if (\<lambda>et. fst et = fst (?te0 ! i)) ?te0 \<and> recognized ?g (fst (?te0 ! i))
           then causesOf ?cl (fst (?te0 ! i)) else [])"
    and new: "drop (length ?te0) te = map (\<lambda>e. (e, causesOf ?cl e)) (newEvents ?g ?te0 ?cl)"
    and g': "g' = ?g\<lparr>m_events := bumped (newEvents ?g ?te0 ?cl) (m_events ?g)\<rparr>"
    by blast+
  from ig have ig': "ig = [9, 7]" by (simp add: resolver_eval)
  from keys have k: "map fst te = [0, 1]" by (simp add: resolver_eval)
  then obtain a b where ab: "te = [a, b]" "fst a = 0" "fst b = 1"
    by (auto simp: map_eq_Cons_conv)
  from old ab have "snd a = [4, 1]" by (simp add: resolver_eval)
  moreover from new ab have "b = (1, [2])" by (simp add: resolver_eval)
  ultimately have te': "te = [(0, [4, 1]), (1, [2])]"
    using ab by (cases a) simp
  from g' have ev: "m_events g' =
      [Some \<lparr>m_eventId = 0, m_actions = [ReportAction], m_eventOccurrences = 5\<rparr>,
       Some \<lparr>m_eventId = 1, m_actions = [], m_eventOccurrences = 1\<rparr>]"
    by (simp add: resolver_eval)
  with run te' ig' show ?thesis by simp
qed

section \<open>Properties of the active-set queries and the action dispatcher\<close>


lemma performChangeActions_invokeAll:
  "performChangeActions actions triggers sr =
   invokeAll (concat (map (\<lambda>a. case a of ReportAction \<Rightarrow> [] | ChangeAction f \<Rightarrow> [(f, triggers)]) actions)) sr"
proof (induction actions arbitrary: sr)
  case Nil
  show ?case by (simp add: invokeAll_def)
next
  case (Cons a actions)
  obtain study result where sr: "sr = (study, result)" by (cases sr)
  show ?case
  proof (cases a)
    case ReportAction
    with Cons.IH show ?thesis by simp
  next
    case (ChangeAction f)
    with Cons.IH [of "f study triggers result"] sr show ?thesis
      by (simp add: invokeAll_def)
  qed
qed

lemma invokeAll_append: "invokeAll (xs @ ys) sr = invokeAll ys (invokeAll xs sr)"
  by (simp add: invokeAll_def)

lemma changeLoop_invokeAll:
  "changeLoop triggeredEvents sr = invokeAll (changeActionsOf triggeredEvents) sr"
proof (induction triggeredEvents arbitrary: sr)
  case Nil
  show ?case by (simp add: invokeAll_def changeActionsOf_def)
next
  case (Cons et rest)
  have "changeActionsOf (et # rest) =
      concat (map (\<lambda>a. case a of ReportAction \<Rightarrow> [] | ChangeAction f \<Rightarrow> [(f, snd et)])
                  (m_actions (fst et))) @ changeActionsOf rest"
    by (simp add: changeActionsOf_def)
  then show ?case
    by (simp add: Cons.IH invokeAll_append performChangeActions_invokeAll)
qed

lemma lowest_difference:
  "isLowestDifference prev (m_stageVersions state) (getLowestSystemStageDifference state prev)"
proof -
  let ?both = "zip (m_stageVersions state) prev"
  let ?d = "find_if (\<lambda>p. fst p \<noteq> snd p) ?both"
  show ?thesis
  proof (cases "?d = length ?both")
    case True
    have "fst p = snd p" if "p \<in> set ?both" for p
    proof -
      from that obtain i where i: "i < length ?both" "?both ! i = p"
        by (auto simp: in_set_conv_nth)
      with True find_if_first [of i "\<lambda>p. fst p \<noteq> snd p" ?both] show ?thesis by auto
    qed
    then have t: "list_all (\<lambda>p. fst p = snd p) ?both"
      by (simp only: list_all_iff) blast
    have r: "getLowestSystemStageDifference state prev = None"
      using True by (simp only: getLowestSystemStageDifference_def Let_def refl if_True)
    show ?thesis
      unfolding r isLowestDifference_def option.case by (rule t)
  next
    case False
    have lt: "?d < length ?both"
      using find_if_le [of "\<lambda>p. fst p \<noteq> snd p" ?both] False by (rule le_neq_implies_less)
    from find_if_found [OF lt] lt have ne: "m_stageVersions state ! ?d \<noteq> prev ! ?d" by simp
    have "fst p = snd p" if "p \<in> set (take ?d ?both)" for p
    proof -
      from that obtain i where i: "i < length (take ?d ?both)" "take ?d ?both ! i = p"
        by (auto simp: in_set_conv_nth)
      then have "i < ?d" by simp
      with i find_if_first [of i "\<lambda>p. fst p \<noteq> snd p" ?both] show ?thesis by auto
    qed
    then have t: "list_all (\<lambda>p. fst p = snd p) (take ?d ?both)"
      by (simp only: list_all_iff) blast
    have r: "getLowestSystemStageDifference state prev = Some ?d"
      using False by (simp only: getLowestSystemStageDifference_def Let_def if_False)
    show ?thesis
      unfolding r isLowestDifference_def option.case
      using lt ne t by (intro conjI)
  qed
qed

text \<open>
  C5. For a non-empty list of triggered events, \<^verbatim>\<open>performEventChangeActions\<close>
  returns; the state and the result it returns are those obtained by invoking every
  Change action of every listed event, in list order and with the causes of its entry,
  starting from the study and the cleared result; and the lowest modified stage it sets
  is the lowest stage at which the version numbers of the returned state differ from
  those of the state at entry (no stage when none differs).
\<close>

theorem change_actions_dispatch:
  assumes "triggeredEvents \<noteq> []"
  shows "\<exists>state result1.
     performEventChangeActions study triggeredEvents result =
       Inr (state, result1\<lparr>m_lowestModifiedStage :=
                             getLowestSystemStageDifference state (m_stageVersions study)\<rparr>) \<and>
     (state, result1) =
       invokeAll (changeActionsOf triggeredEvents)
         (study, \<lparr>m_exitStatus = [], m_lowestModifiedStage = None\<rparr>) \<and>
     isLowestDifference (m_stageVersions study) (m_stageVersions state)
       (getLowestSystemStageDifference state (m_stageVersions study))"
proof -
  obtain state result1 where
    run: "changeLoop triggeredEvents (study, clearResult result) = (state, result1)"
    by (cases "changeLoop triggeredEvents (study, clearResult result)")
  have a: "performEventChangeActions study triggeredEvents result =
       Inr (state, result1\<lparr>m_lowestModifiedStage :=
                             getLowestSystemStageDifference state (m_stageVersions study)\<rparr>)"
    unfolding performEventChangeActions_def getSystemStageVersions_def setLowestModifiedStage_def
      Let_def run
    using assms by simp
  have b: "(state, result1) =
       invokeAll (changeActionsOf triggeredEvents)
         (study, \<lparr>m_exitStatus = [], m_lowestModifiedStage = None\<rparr>)"
    using run by (simp add: changeLoop_invokeAll clearResult_def)
  have c: "isLowestDifference (m_stageVersions study) (m_stageVersions state)
       (getLowestSystemStageDifference state (m_stageVersions study))"
    by (rule lowest_difference)
  show ?thesis
    by (intro exI conjI) (rule a, rule b, rule c)
qed

theorem change_actions_dispatch_witness:
  "performEventChangeActions \<lparr>m_stageVersions = [1, 1, 1]\<rparr>
     [(\<lparr>m_eventId = 0,
        m_actions = [ReportAction,
                     ChangeAction (\<lambda>s trs r. (s\<lparr>m_stageVersions := (m_stageVersions s)[2 := 5]\<rparr>,
                                                r\<lparr>m_exitStatus := m_exitStatus r @ [Succeeded]\<rparr>))],
        m_eventOccurrences = 1\<rparr>, [1]),
      (\<lparr>m_eventId = 1,
        m_actions = [ChangeAction (\<lambda>s trs r. (s\<lparr>m_stageVersions := (m_stageVersions s)[1 := 2]\<rparr>,
                                                r\<lparr>m_exitStatus := m_exitStatus r @ [ShouldTerminate]\<rparr>))],
        m_eventOccurrences = 1\<rparr>, [1, 2])]
     \<lparr>m_exitStatus = [Failed], m_lowestModifiedStage = Some 0\<rparr> =
   Inr (\<lparr>m_stageVersions = [1, 2, 5]\<rparr>,
        \<lparr>m_exitStatus = [Succeeded, ShouldTerminate], m_lowestModifiedStage = Some 1\<rparr>)"
proof -
  let ?te = "[(\<lparr>m_eventId = 0,
        m_actions = [ReportAction,
                     ChangeAction (\<lambda>s trs r. (s\<lparr>m_stageVersions := (m_stageVersions s)[2 := 5]\<rparr>,
                                                r\<lparr>m_exitStatus := m_exitStatus r @ [Succeeded]\<rparr>))],
        m_eventOccurrences = 1\<rparr>, [1 :: nat]),
      (\<lparr>m_eventId = 1,
        m_actions = [ChangeAction (\<lambda>s trs r. (s\<lparr>m_stageVersions := (m_stageVersions s)[1 := 2]\<rparr>,
                                                r\<lparr>m_exitStatus := m_exitStatus r @ [ShouldTerminate]\<rparr>))],
        m_eventOccurrences = 1\<rparr>, [1, 2])]"
  have ne: "?te \<noteq> []" by simp
  from change_actions_dispatch [OF ne, of "\<lparr>m_stageVersions = [1, 1, 1]\<rparr>"
      "\<lparr>m_exitStatus = [Failed], m_lowestModifiedStage = Some 0\<rparr>"]
  obtain state result1 where
    run: "performEventChangeActions \<lparr>m_stageVersions = [1, 1, 1]\<rparr> ?te
            \<lparr>m_exitStatus = [Failed], m_lowestModifiedStage = Some 0\<rparr> =
          Inr (state, result1\<lparr>m_lowestModifiedStage :=
                 getLowestSystemStageDifference state (m_stageVersions \<lparr>m_stageVersions = [1, 1, 1]\<rparr>)\<rparr>)"
    and inv: "(state, result1) =
       invokeAll (changeActionsOf ?te)
         (\<lparr>m_stageVersions = [1, 1, 1]\<rparr>, \<lparr>m_exitStatus = [], m_lowestModifiedStage = None\<rparr>)"
    by (elim exE conjE) (rule that, assumption+)
  from inv have "state = \<lparr>m_stageVersions = [1, 2, 5]\<rparr>"
    and "result1 = \<lparr>m_exitStatus = [Succeeded, ShouldTerminate], m_lowestModifiedStage = None\<rparr>"
    by (simp_all add: invokeAll_def changeActionsOf_def)
  with run show ?thesis
    by (simp add: getLowestSystemStageDifference_def)
qed

end
